theory Spec2Isabelle
  imports Complex_Main "HOL-Library.Sublist" "HOL-Library.Log_Nat"
begin

section \<open>Strings\<close>

text \<open>
  A JavaScript string is modelled as a list of code units below 256 (the Latin-1 range),
  so \<open>char\<close> stands for one UTF-16 code unit. Attempt counts and HTTP statuses are
  integers and are modelled as \<open>nat\<close> and \<open>int\<close>; delays are computed in floating
  point and are modelled as IEEE 754 binary64 values (section ``Numbers'').
\<close>

definition NL :: char where
  "NL = CHR ''\<newline>''"

definition CR :: char where
  "CR = CHR 0x0D"

text \<open>\<open>String.prototype.toLowerCase\<close> on the Latin-1 range.\<close>

definition lower_char :: "char \<Rightarrow> char" where
  "lower_char c =
     (let n = of_char c :: nat in
      if (65 \<le> n \<and> n \<le> 90) \<or> (192 \<le> n \<and> n \<le> 222 \<and> n \<noteq> 215)
      then char_of (n + 32) else c)"

definition toLowerCase :: "string \<Rightarrow> string" where
  "toLowerCase s = map lower_char s"

text \<open>\<open>String.prototype.includes\<close>: the pattern occurs as a contiguous substring.\<close>

fun str_includes :: "string \<Rightarrow> string \<Rightarrow> bool" where
  "str_includes [] p = (p = [])"
| "str_includes (c # cs) p = (prefix p (c # cs) \<or> str_includes cs p)"

text \<open>Decimal rendering of a number inside a template literal.\<close>

definition digit_char :: "nat \<Rightarrow> char" where
  "digit_char d = ''0123456789'' ! d"

fun show_nat :: "nat \<Rightarrow> string" where
  "show_nat n = (if n < 10 then [digit_char n] else show_nat (n div 10) @ [digit_char (n mod 10)])"

declare show_nat.simps [simp del]

section \<open>services/error.js\<close>

text \<open>
  The values stored in an error's \<open>context\<close> object, and an error object with the
  properties the service reads: \<open>name\<close>, \<open>message\<close>, \<open>code\<close>, \<open>status\<close>,
  \<open>context\<close>, whether it is an instance of \<open>ScrapingError\<close>, and \<open>originalError\<close>.
  A property that is \<open>undefined\<close> is \<open>None\<close>. The \<open>timestamp\<close> and \<open>stack\<close>
  properties are not read by any function below and are left out.
\<close>

datatype ctx_value = CBool bool | CNum nat | CStr string

datatype js_error = JsError
  (err_name: string)
  (err_message: string)
  (err_code: "string option")
  (err_status: "int option")
  (err_context: "(string \<times> ctx_value) list option")
  (isScrapingError: bool)
  (originalError: "js_error option")

definition NETWORK :: string where "NETWORK = ''NETWORK_ERROR''"
definition TIMEOUT :: string where "TIMEOUT = ''TIMEOUT_ERROR''"
definition PARSE :: string where "PARSE = ''PARSE_ERROR''"
definition VALIDATION :: string where "VALIDATION = ''VALIDATION_ERROR''"
definition RATE_LIMIT :: string where "RATE_LIMIT = ''RATE_LIMIT_ERROR''"
definition FILE_EXISTS :: string where "FILE_EXISTS = ''FILE_EXISTS_ERROR''"

text \<open>\<open>new ScrapingError(message, code, context, originalError)\<close>.\<close>

definition ScrapingError ::
  "string \<Rightarrow> string \<Rightarrow> (string \<times> ctx_value) list \<Rightarrow> js_error option \<Rightarrow> js_error" where
  "ScrapingError msg c ctx orig = JsError ''ScrapingError'' msg (Some c) None (Some ctx) True orig"

text \<open>JavaScript truthiness of a context value, of \<open>error.code\<close> and of \<open>error.status\<close>.\<close>

fun truthy :: "ctx_value \<Rightarrow> bool" where
  "truthy (CBool b) = b"
| "truthy (CNum n) = (n \<noteq> 0)"
| "truthy (CStr s) = (s \<noteq> [])"

definition context_get :: "js_error \<Rightarrow> string \<Rightarrow> ctx_value option" where
  "context_get e k = (case err_context e of None \<Rightarrow> None | Some ctx \<Rightarrow> map_of ctx k)"

definition nonRetryable_set :: "js_error \<Rightarrow> bool" where
  "nonRetryable_set e = (case context_get e ''nonRetryable'' of None \<Rightarrow> False | Some v \<Rightarrow> truthy v)"

definition code_truthy :: "js_error \<Rightarrow> bool" where
  "code_truthy e = (case err_code e of None \<Rightarrow> False | Some c \<Rightarrow> c \<noteq> [])"

definition status_truthy :: "js_error \<Rightarrow> bool" where
  "status_truthy e = (case err_status e of None \<Rightarrow> False | Some s \<Rightarrow> s \<noteq> 0)"

definition retryableCodes :: "string list" where
  "retryableCodes = [''ETIMEDOUT'', ''ENOTFOUND'', ''ECONNRESET'', ''ECONNREFUSED'']"

definition retryableStatus :: "int list" where
  "retryableStatus = [408, 429, 500, 502, 503, 504]"

definition classifyError :: "js_error \<Rightarrow> string" where
  "classifyError error =
     (if err_name error = ''TimeoutError'' then TIMEOUT
      else if code_truthy error \<and> the (err_code error) \<in> set retryableCodes then NETWORK
      else if status_truthy error \<and> the (err_status error) = 429 then RATE_LIMIT
      else if status_truthy error \<and> the (err_status error) \<ge> 500 then NETWORK
      else if err_message error \<noteq> [] \<and>
              (str_includes (toLowerCase (err_message error)) ''rate limit'' \<or>
               str_includes (toLowerCase (err_message error)) ''too many requests'') then RATE_LIMIT
      else PARSE)"

definition isRetryableError :: "js_error \<Rightarrow> bool" where
  "isRetryableError error =
     (if nonRetryable_set error then False
      else if code_truthy error \<and> the (err_code error) \<in> set retryableCodes then True
      else if status_truthy error then the (err_status error) \<in> set retryableStatus
      else if err_name error = ''TimeoutError'' then True
      else False)"

definition wrapError :: "js_error \<Rightarrow> string \<Rightarrow> (string \<times> ctx_value) list \<Rightarrow> js_error" where
  "wrapError error c ctx =
     (if isScrapingError error then error
      else ScrapingError (err_message error) c ctx (Some error))"

section \<open>Numbers\<close>

text \<open>
  A JavaScript Number is an IEEE 754 binary64 value. \<open>Finite s m e\<close> is the finite value
  \<open>(-1)^s * m * 2^e\<close> with sign \<open>s\<close> (\<open>True\<close> for negative), integer significand
  \<open>m < 2^53\<close> and exponent \<open>-1074 \<le> e \<le> 971\<close>, where \<open>2^52 \<le> m\<close> unless \<open>e = -1074\<close>
  (the subnormal numbers and zero); \<open>Finite True 0 (-1074)\<close> is \<open>-0\<close>. \<open>Infinite s\<close> is
  \<open>+Infinity\<close> or \<open>-Infinity\<close>.
\<close>

datatype number = Finite bool nat int | Infinite bool | NaN

text \<open>
  Rounding to nearest, ties to even. \<open>round_shift M k\<close> is \<open>M / 2^k\<close> rounded to an
  integer. \<open>to_double s M E\<close> is the Number nearest to the exact value \<open>(-1)^s * M * 2^E\<close>:
  the exponent of the last place is fixed by the bit length of \<open>M\<close> (not below \<open>-1074\<close>),
  the significand is rounded at that place, and a result of \<open>2^1024\<close> or more overflows
  to infinity.
\<close>

definition round_shift :: "nat \<Rightarrow> nat \<Rightarrow> nat" where
  "round_shift M k =
     (if k = 0 then M
      else let q = M div 2 ^ k; r = M mod 2 ^ k; h = 2 ^ (k - 1)
           in if r > h \<or> (r = h \<and> odd q) then q + 1 else q)"

definition ulp_exponent :: "nat \<Rightarrow> int \<Rightarrow> int" where
  "ulp_exponent M E = max (int (floorlog 2 M) + E - 53) (- 1074)"

definition significand :: "nat \<Rightarrow> int \<Rightarrow> nat" where
  "significand M E =
     (let t = ulp_exponent M E
      in if t \<le> E then M * 2 ^ nat (E - t) else round_shift M (nat (t - E)))"

definition to_double :: "bool \<Rightarrow> nat \<Rightarrow> int \<Rightarrow> number" where
  "to_double s M E =
     (let t = ulp_exponent M E; n = significand M E
      in if n = 0 then Finite s 0 (- 1074)
         else if n = 2 ^ 53 then (if t + 1 > 971 then Infinite s else Finite s (2 ^ 52) (t + 1))
         else if t > 971 then Infinite s
         else Finite s n t)"

definition signed :: "bool \<Rightarrow> nat \<Rightarrow> int" where
  "signed s m = (if s then - int m else int m)"

text \<open>The operators \<open>*\<close>, \<open>+\<close>, unary and binary \<open>-\<close>, \<open><\<close> and \<open><=\<close> on Numbers.\<close>

fun js_mul :: "number \<Rightarrow> number \<Rightarrow> number" where
  "js_mul (Finite s m e) (Finite s' m' e') = to_double (s \<noteq> s') (m * m') (e + e')"
| "js_mul (Finite s m e) (Infinite s') = (if m = 0 then NaN else Infinite (s \<noteq> s'))"
| "js_mul (Infinite s) (Finite s' m' e') = (if m' = 0 then NaN else Infinite (s \<noteq> s'))"
| "js_mul (Infinite s) (Infinite s') = Infinite (s \<noteq> s')"
| "js_mul NaN _ = NaN"
| "js_mul _ NaN = NaN"

fun js_add :: "number \<Rightarrow> number \<Rightarrow> number" where
  "js_add (Finite s m e) (Finite s' m' e') =
     (let x = min e e';
          i = signed s m * 2 ^ nat (e - x) + signed s' m' * 2 ^ nat (e' - x)
      in if i = 0 then Finite (s \<and> s') 0 (- 1074) else to_double (i < 0) (nat \<bar>i\<bar>) x)"
| "js_add (Finite s m e) (Infinite s') = Infinite s'"
| "js_add (Infinite s) (Finite s' m' e') = Infinite s"
| "js_add (Infinite s) (Infinite s') = (if s = s' then Infinite s else NaN)"
| "js_add NaN _ = NaN"
| "js_add _ NaN = NaN"

fun js_neg :: "number \<Rightarrow> number" where
  "js_neg (Finite s m e) = Finite (\<not> s) m e"
| "js_neg (Infinite s) = Infinite (\<not> s)"
| "js_neg NaN = NaN"

definition js_sub :: "number \<Rightarrow> number \<Rightarrow> number" where
  "js_sub x y = js_add x (js_neg y)"

fun js_lt :: "number \<Rightarrow> number \<Rightarrow> bool" where
  "js_lt (Finite s m e) (Finite s' m' e') =
     (signed s m * 2 ^ nat (e - min e e') < signed s' m' * 2 ^ nat (e' - min e e'))"
| "js_lt (Finite s m e) (Infinite s') = (\<not> s')"
| "js_lt (Infinite s) (Finite s' m' e') = s"
| "js_lt (Infinite s) (Infinite s') = (s \<and> \<not> s')"
| "js_lt NaN _ = False"
| "js_lt _ NaN = False"

fun js_le :: "number \<Rightarrow> number \<Rightarrow> bool" where
  "js_le (Finite s m e) (Finite s' m' e') =
     (signed s m * 2 ^ nat (e - min e e') \<le> signed s' m' * 2 ^ nat (e' - min e e'))"
| "js_le (Finite s m e) (Infinite s') = (\<not> s')"
| "js_le (Infinite s) (Finite s' m' e') = s"
| "js_le (Infinite s) (Infinite s') = (s \<or> \<not> s')"
| "js_le NaN _ = False"
| "js_le _ NaN = False"

text \<open>
  \<open>Math.min\<close> of two Numbers: \<open>NaN\<close> if either is \<open>NaN\<close>, and \<open>-0\<close> counts as smaller
  than \<open>+0\<close>.
\<close>

fun is_zero :: "bool \<Rightarrow> number \<Rightarrow> bool" where
  "is_zero s (Finite s' m e) = (s' = s \<and> m = 0)"
| "is_zero s _ = False"

definition Math_min :: "number \<Rightarrow> number \<Rightarrow> number" where
  "Math_min x y =
     (if x = NaN \<or> y = NaN then NaN
      else if js_lt y x \<or> (is_zero True y \<and> is_zero False x) then y
      else x)"

text \<open>
  \<open>2 ** z\<close> for an integer \<open>z\<close>, the Number of a non-negative integer literal, and the
  Numbers that the literals \<open>0.1\<close> and \<open>0.2\<close> denote (\<open>0x3FB999999999999A\<close> and
  \<open>0x3FC999999999999A\<close>).
\<close>

definition js_pow2 :: "int \<Rightarrow> number" where
  "js_pow2 z = to_double False 1 z"

definition js_nat :: "nat \<Rightarrow> number" where
  "js_nat n = to_double False n 0"

definition one_tenth :: number where
  "one_tenth = Finite False 7205759403792794 (- 56)"

definition two_tenths :: number where
  "two_tenths = Finite False 7205759403792794 (- 55)"

subsection \<open>Real values\<close>

text \<open>
  The real number that a finite Number stands for, the real value of a significand
  with its exponent, rounding of a real number to the nearest integer with ties to
  even, and the real value that \<open>to_double\<close> rounds to. The Numbers that the literals
  \<open>0.9\<close> and \<open>1.1\<close> denote.
\<close>

fun valof :: "number \<Rightarrow> real" where
  "valof (Finite s m e) = real_of_int (signed s m) * 2 powi e"
| "valof (Infinite s) = 0"
| "valof NaN = 0"

definition dyadic :: "nat \<Rightarrow> int \<Rightarrow> real" where
  "dyadic M E = real M * 2 powi E"

definition nearest_even :: "real \<Rightarrow> int" where
  "nearest_even y =
     (let f = \<lfloor>y\<rfloor>; d = y - of_int f
      in if d < 1 / 2 then f else if 1 / 2 < d then f + 1 else if even f then f else f + 1)"

definition rounded :: "nat \<Rightarrow> int \<Rightarrow> real" where
  "rounded M E = real (significand M E) * 2 powi ulp_exponent M E"

definition nine_tenths :: number where
  "nine_tenths = Finite False 8106479329266893 (- 53)"

definition eleven_tenths :: number where
  "eleven_tenths = Finite False 4953959590107546 (- 52)"

section \<open>services/retry.js\<close>

text \<open>
  \<open>calculateDelay\<close>. The attempt number is an integer (the loop counter, exact as a
  Number below \<open>2^53\<close>); the value returned by \<open>Math.random()\<close> is the extra argument
  \<open>rnd\<close>, a Number in \<open>[0, 1)\<close>. \<open>jitter_of\<close> names the jitter factor computed inside.
\<close>

definition calculateDelay :: "nat \<Rightarrow> number \<Rightarrow> number \<Rightarrow> number \<Rightarrow> number" where
  "calculateDelay attempt baseDelay maxDelay rnd =
     (let exponentialDelay = js_mul baseDelay (js_pow2 (int attempt - 1));
          jitter = js_add (js_nat 1) (js_sub (js_mul rnd two_tenths) one_tenth)
      in Math_min (js_mul exponentialDelay jitter) maxDelay)"

definition jitter_of :: "number \<Rightarrow> number" where
  "jitter_of rnd = js_add (js_nat 1) (js_sub (js_mul rnd two_tenths) one_tenth)"

text \<open>
  The options after destructuring; \<open>onRetry\<close> records whether an observer was given.
  The observer and the sleep are side effects: they are logged as events, together
  with every invocation of the operation. The observer is taken to return normally.
\<close>

record retry_options =
  maxAttempts :: nat
  baseDelay :: number
  maxDelay :: number
  onRetry :: bool

definition default_options :: retry_options where
  "default_options =
     \<lparr>maxAttempts = 3, baseDelay = js_nat 1000, maxDelay = js_nat 30000, onRetry = False\<rparr>"

datatype event =
    Invoke nat
  | Observe nat nat nat number js_error
  | Sleep number

text \<open>
  The throw after the loop. With no attempt made \<open>lastError\<close> is \<open>undefined\<close> and
  reading its \<open>message\<close> raises a \<open>TypeError\<close>.
\<close>

definition undefined_message_error :: js_error where
  "undefined_message_error =
     JsError ''TypeError'' ''Cannot read properties of undefined (reading 'message')''
       None None None False None"

definition throw_exhausted :: "retry_options \<Rightarrow> js_error option \<Rightarrow> js_error" where
  "throw_exhausted opts lastError =
     (case lastError of
        None \<Rightarrow> undefined_message_error
      | Some e \<Rightarrow>
          wrapError e NETWORK
            [(''totalAttempts'', CNum (maxAttempts opts)),
             (''message'', CStr (''Operation failed after '' @ show_nat (maxAttempts opts) @ '' attempts''))])"

text \<open>
  The \<open>for\<close> loop of \<open>executeWithRetry\<close>. The operation is given the attempt number
  and either returns (\<open>Inr\<close>) or throws (\<open>Inl\<close>); along one run it is called once for
  each attempt number, so its outcomes are a function of that number. \<open>rnd k\<close> is the
  random number drawn after attempt \<open>k\<close>.
\<close>

function retry_loop ::
  "(nat \<Rightarrow> js_error + 'a) \<Rightarrow> retry_options \<Rightarrow> (nat \<Rightarrow> number) \<Rightarrow> nat \<Rightarrow> js_error option \<Rightarrow>
     event list \<Rightarrow> (js_error + 'a) \<times> event list" where
  "retry_loop operation opts rnd attempt lastError tr =
     (if attempt \<le> maxAttempts opts then
        (case operation attempt of
           Inr result \<Rightarrow> (Inr result, tr @ [Invoke attempt])
         | Inl error \<Rightarrow>
             (if attempt \<ge> maxAttempts opts then
                (Inl (throw_exhausted opts (Some error)), tr @ [Invoke attempt])
              else if \<not> isRetryableError error then
                (Inl (wrapError error NETWORK
                        [(''nonRetryable'', CBool True), (''attemptsMade'', CNum attempt)]),
                 tr @ [Invoke attempt])
              else
                (let delay = calculateDelay attempt (baseDelay opts) (maxDelay opts) (rnd attempt)
                 in retry_loop operation opts rnd (attempt + 1) (Some error)
                      (tr @ [Invoke attempt]
                          @ (if onRetry opts
                             then [Observe attempt (attempt + 1) (maxAttempts opts) delay error]
                             else [])
                          @ [Sleep delay]))))
      else (Inl (throw_exhausted opts lastError), tr))"
  by pat_completeness auto
termination
  by (relation "measure (\<lambda>(operation, opts, rnd, attempt, lastError, tr). Suc (maxAttempts opts) - attempt)")
     auto

declare retry_loop.simps [simp del]

definition executeWithRetry ::
  "(nat \<Rightarrow> js_error + 'a) \<Rightarrow> retry_options \<Rightarrow> (nat \<Rightarrow> number) \<Rightarrow> (js_error + 'a) \<times> event list" where
  "executeWithRetry operation opts rnd = retry_loop operation opts rnd 1 None []"

text \<open>The attempt numbers passed to the operation, in order.\<close>

fun invoked :: "event list \<Rightarrow> nat list" where
  "invoked [] = []"
| "invoked (Invoke n # es) = n # invoked es"
| "invoked (_ # es) = invoked es"

text \<open>
  The events of an attempt \<open>i\<close> that fails and is retried: the invocation, the call of
  the observer (if one was given) with the delay, and the sleep for that delay.
\<close>

definition retry_events ::
  "(nat \<Rightarrow> js_error + 'a) \<Rightarrow> retry_options \<Rightarrow> (nat \<Rightarrow> number) \<Rightarrow> nat \<Rightarrow> event list" where
  "retry_events operation opts rnd i =
     (let delay = calculateDelay i (baseDelay opts) (maxDelay opts) (rnd i)
      in [Invoke i]
         @ (if onRetry opts
            then [Observe i (i + 1) (maxAttempts opts) delay (projl (operation i))]
            else [])
         @ [Sleep delay])"

section \<open>Lines, whitespace and regular expressions\<close>

text \<open>
  \<open>split("\n")\<close> and \<open>join("\n")\<close>. Splitting always yields at least one line;
  joining the empty array yields the empty string.
\<close>

fun split_nl :: "string \<Rightarrow> string list" where
  "split_nl [] = [[]]"
| "split_nl (c # cs) =
     (if c = NL then [] # split_nl cs
      else (case split_nl cs of [] \<Rightarrow> [[c]] | l # ls \<Rightarrow> (c # l) # ls))"

fun join_nl :: "string list \<Rightarrow> string" where
  "join_nl [] = []"
| "join_nl [l] = l"
| "join_nl (l # ls) = l @ NL # join_nl ls"

text \<open>
  White space as \<open>trim\<close>, \<open>trimEnd\<close> and the class \<open>\s\<close> see it, below code unit
  256: tab, line feed, vertical tab, form feed, carriage return, space, no-break space.
\<close>

definition is_space :: "char \<Rightarrow> bool" where
  "is_space c \<longleftrightarrow> c \<in> {CHR 0x09, NL, CHR 0x0B, CHR 0x0C, CR, CHR '' '', CHR 0xA0}"

definition trimStart :: "string \<Rightarrow> string" where
  "trimStart s = dropWhile is_space s"

definition trimEnd :: "string \<Rightarrow> string" where
  "trimEnd s = rev (dropWhile is_space (rev s))"

definition trim :: "string \<Rightarrow> string" where
  "trim s = trimEnd (trimStart s)"

text \<open>\<open>startsWith("-")\<close>.\<close>

definition startsWithDash :: "string \<Rightarrow> bool" where
  "startsWithDash s = prefix ''-'' s"

text \<open>
  Character classes of the patterns in the source. \<open>Dot\<close> is \<open>.\<close> without the \<open>s\<close>
  flag (no line terminator), \<open>DotAll\<close> is \<open>.\<close> with it, \<open>LitCI\<close> is a literal under the
  \<open>i\<close> flag, \<open>Space\<close> is \<open>\s\<close>, \<open>Digit\<close> is \<open>\d\<close>, \<open>NotC c\<close> is \<open>[^c]\<close>, \<open>DashSpace\<close> is
  \<open>[-\s]\<close> and \<open>Range a b\<close> is \<open>[a-b]\<close>.
\<close>

datatype cclass =
    Lit char
  | LitCI char
  | Dot
  | DotAll
  | Space
  | Digit
  | NotC char
  | DashSpace
  | Range char char

definition is_digit :: "char \<Rightarrow> bool" where
  "is_digit c \<longleftrightarrow> (48::nat) \<le> of_char c \<and> (of_char c :: nat) \<le> 57"

definition is_line_terminator :: "char \<Rightarrow> bool" where
  "is_line_terminator c \<longleftrightarrow> c = NL \<or> c = CR"

definition is_word :: "char \<Rightarrow> bool" where
  "is_word c \<longleftrightarrow>
     (let n = of_char c :: nat in
      (48 \<le> n \<and> n \<le> 57) \<or> (65 \<le> n \<and> n \<le> 90) \<or> (97 \<le> n \<and> n \<le> 122) \<or> n = 95)"

fun in_class :: "cclass \<Rightarrow> char \<Rightarrow> bool" where
  "in_class (Lit c) x = (x = c)"
| "in_class (LitCI c) x = (lower_char x = lower_char c)"
| "in_class Dot x = (\<not> is_line_terminator x)"
| "in_class DotAll x = True"
| "in_class Space x = is_space x"
| "in_class Digit x = is_digit x"
| "in_class (NotC c) x = (x \<noteq> c)"
| "in_class DashSpace x = (x = CHR ''-'' \<or> is_space x)"
| "in_class (Range a b) x = ((of_char a :: nat) \<le> of_char x \<and> (of_char x :: nat) \<le> of_char b)"

text \<open>
  A pattern is a sequence of atoms: one character of a class, a greedy star, a lazy
  star, a greedy optional character, a capture boundary, the end of the input
  (\<open>$\<close> without the \<open>m\<close> flag), the end of a line (\<open>$\<close> with the \<open>m\<close> flag: the end
  of the input or a line terminator ahead), a word boundary that follows a word
  character (\<open>\b\<close>), and a negative lookahead over alternatives. \<open>x+\<close> is
  \<open>One x, Star x\<close>.
\<close>

datatype atom =
    One cclass
  | Star cclass
  | StarLazy cclass
  | Opt cclass
  | Mark
  | Eos
  | Eol
  | WordEnd
  | NotAhead "atom list list"

text \<open>
  Backtracking match of a pattern at the start of a string, in the priority order of
  the regular-expression engine: a greedy star takes one more character before it
  tries the rest of the pattern, a lazy star tries the rest first. The result is the
  first match found: the input at each capture boundary, and the input left after
  the match.
\<close>

fun rmatch :: "atom list \<Rightarrow> string \<Rightarrow> (string list \<times> string) option" where
  "rmatch [] s = Some ([], s)"
| "rmatch (One c # as) s =
     (case s of [] \<Rightarrow> None | x # xs \<Rightarrow> if in_class c x then rmatch as xs else None)"
| "rmatch (Star c # as) s =
     (case s of
        [] \<Rightarrow> rmatch as []
      | x # xs \<Rightarrow>
          if in_class c x
          then (case rmatch (Star c # as) xs of Some r \<Rightarrow> Some r | None \<Rightarrow> rmatch as (x # xs))
          else rmatch as (x # xs))"
| "rmatch (StarLazy c # as) s =
     (case rmatch as s of
        Some r \<Rightarrow> Some r
      | None \<Rightarrow>
          (case s of [] \<Rightarrow> None
           | x # xs \<Rightarrow> if in_class c x then rmatch (StarLazy c # as) xs else None))"
| "rmatch (Opt c # as) s =
     (case s of
        [] \<Rightarrow> rmatch as []
      | x # xs \<Rightarrow>
          if in_class c x
          then (case rmatch as xs of Some r \<Rightarrow> Some r | None \<Rightarrow> rmatch as (x # xs))
          else rmatch as (x # xs))"
| "rmatch (Mark # as) s =
     (case rmatch as s of None \<Rightarrow> None | Some (ms, r) \<Rightarrow> Some (s # ms, r))"
| "rmatch (Eos # as) s = (if s = [] then rmatch as s else None)"
| "rmatch (Eol # as) s =
     (case s of [] \<Rightarrow> rmatch as []
      | x # xs \<Rightarrow> if is_line_terminator x then rmatch as (x # xs) else None)"
| "rmatch (WordEnd # as) s =
     (case s of [] \<Rightarrow> rmatch as [] | x # xs \<Rightarrow> if is_word x then None else rmatch as (x # xs))"
| "rmatch (NotAhead alts # as) s =
     (if list_ex (\<lambda>alt. rmatch alt s \<noteq> None) alts then None else rmatch as s)"

text \<open>\<open>RegExp.prototype.test\<close> for a pattern that starts with \<open>^\<close> (no \<open>m\<close> flag).\<close>

definition re_test :: "atom list \<Rightarrow> string \<Rightarrow> bool" where
  "re_test p s = (rmatch p s \<noteq> None)"

text \<open>
  \<open>test\<close> for a pattern that starts with \<open>^\<close> under the \<open>m\<close> flag: the pattern may
  start at the start of the input or right after a line terminator.
\<close>

fun after_terminators :: "atom list \<Rightarrow> string \<Rightarrow> bool" where
  "after_terminators p [] = False"
| "after_terminators p (c # cs) = ((is_line_terminator c \<and> re_test p cs) \<or> after_terminators p cs)"

definition re_test_m :: "atom list \<Rightarrow> string \<Rightarrow> bool" where
  "re_test_m p s = (re_test p s \<or> after_terminators p s)"

definition lit :: "string \<Rightarrow> atom list" where
  "lit s = map (\<lambda>c. One (Lit c)) s"

definition lit_ci :: "string \<Rightarrow> atom list" where
  "lit_ci s = map (\<lambda>c. One (LitCI c)) s"

text \<open>
  \<open>String.prototype.replace\<close> with a global pattern: the leftmost match from the
  current position is replaced and the scan continues after it. The replacement is
  computed from the input at the match, the capture boundaries and the input left.
  After an empty match the scan advances by one character.
\<close>

function replace_all ::
  "atom list \<Rightarrow> (string \<Rightarrow> string list \<Rightarrow> string \<Rightarrow> string) \<Rightarrow> string \<Rightarrow> string" where
  "replace_all p f [] = (case rmatch p [] of None \<Rightarrow> [] | Some (ms, r) \<Rightarrow> f [] ms r)"
| "replace_all p f (c # cs) =
     (case rmatch p (c # cs) of
        None \<Rightarrow> c # replace_all p f cs
      | Some (ms, r) \<Rightarrow>
          if length r < length (c # cs) then f (c # cs) ms r @ replace_all p f r
          else f (c # cs) ms r @ c # replace_all p f cs)"
  by pat_completeness auto
termination
  by (relation "measure (\<lambda>(p, f, s). length s)") auto

text \<open>The text of a capture group, between two capture boundaries.\<close>

definition between :: "string \<Rightarrow> string \<Rightarrow> string" where
  "between a b = take (length a - length b) a"


section \<open>core/postprocessor.js: removeDuplicateTOC\<close>

text \<open>The pattern \<open>/^[-\s]*-\s+\[.+?\]\(#.+\)/\<close>, tested on the trimmed line.\<close>

definition toc_pattern :: "atom list" where
  "toc_pattern =
     [Star DashSpace, One (Lit CHR ''-''), One Space, Star Space, One (Lit CHR ''[''),
      One Dot, StarLazy Dot, One (Lit CHR '']''), One (Lit CHR ''(''), One (Lit CHR ''#''),
      One Dot, Star Dot, One (Lit CHR '')'')]"

definition isTocItem :: "string \<Rightarrow> bool" where
  "isTocItem line = re_test toc_pattern (trim line)"

text \<open>
  The loop over the lines, with the variables \<open>inToc\<close>, \<open>tocLines\<close>, \<open>seenToc\<close> and
  \<open>result\<close> as arguments; the value is \<open>result\<close> when the lines are used up.
\<close>

fun toc_loop :: "bool \<Rightarrow> string list \<Rightarrow> bool \<Rightarrow> string list \<Rightarrow> string list \<Rightarrow> string list" where
  "toc_loop inToc tocLines seenToc result [] = result"
| "toc_loop inToc tocLines seenToc result (line # rest) =
     (if isTocItem line then
        (if \<not> inToc then toc_loop True [line] seenToc result rest
         else toc_loop True (tocLines @ [line]) seenToc result rest)
      else if inToc then
        (if \<not> seenToc \<and> length tocLines < 30 \<and> length tocLines > 2
         then toc_loop False [] True (result @ tocLines @ [line]) rest
         else toc_loop False [] seenToc (result @ [line]) rest)
      else toc_loop inToc tocLines seenToc (result @ [line]) rest)"

definition removeDuplicateTOC :: "string \<Rightarrow> string" where
  "removeDuplicateTOC markdown = join_nl (toc_loop False [] False [] (split_nl markdown))"


section \<open>core/navigation-cleaner.js\<close>

definition NAVIGATION_KEYWORDS :: "string list" where
  "NAVIGATION_KEYWORDS =
     [''skip to main content'', ''ok, got it'', ''learn more'', ''menuclose'', ''menu close'',
      ''uses cookies from google'', ''get started'', ''on this page'', ''copy link'',
      ''view source'', ''report issue'', ''more_vert'', ''[search]'', ''is live!'']"

text \<open>The patterns \<open>/^routine$/im\<close>, \<open>/^apps$/im\<close>, \<open>/^list$/im\<close>, \<open>/^more_vert$/im\<close>.\<close>

definition MENU_SECTION_HEADERS :: "atom list list" where
  "MENU_SECTION_HEADERS =
     [lit_ci ''routine'' @ [Eol], lit_ci ''apps'' @ [Eol], lit_ci ''list'' @ [Eol],
      lit_ci ''more_vert'' @ [Eol]]"

definition has_keyword :: "string \<Rightarrow> bool" where
  "has_keyword trimmedLine =
     list_ex (\<lambda>keyword. str_includes (toLowerCase trimmedLine) keyword) NAVIGATION_KEYWORDS"

definition is_section_header :: "string \<Rightarrow> bool" where
  "is_section_header trimmedLine = list_ex (\<lambda>pattern. re_test_m pattern trimmedLine) MENU_SECTION_HEADERS"

text \<open>The condition \<open>isMenuList\<close> on the lowercased window \<open>listContent\<close>.\<close>

definition isMenuList :: "string \<Rightarrow> bool" where
  "isMenuList listContent \<longleftrightarrow>
     (str_includes listContent ''logo'' \<and> str_includes listContent ''navigate to'') \<or>
     (str_includes listContent ''install'' \<and> str_includes listContent ''files'') \<or>
     str_includes listContent ''user interface'' \<or>
     str_includes listContent ''component catalog'' \<or>
     (str_includes listContent ''palette'' \<and> str_includes listContent ''view_module'') \<or>
     str_includes listContent ''#introduction'' \<or>
     str_includes listContent ''#create-a-new''"

text \<open>
  The four patterns matched against the trimmed line at the end of the loop body:
  \<open>/^-\s*\[!\[.*?logo.*?\]\(.*?\)/\<close>, \<open>/^\[#\]\(#.+\)$/\<close>,
  \<open>/^\[vertical_align_top.*?\]\(#.+\)$/\<close> and
  \<open>/^\d+\.\s+\[.*?\]\(.*\)(\s+chevron_right)?$/\<close>, the last one as its two
  alternatives, with and without the optional group.
\<close>

definition logo_link_pattern :: "atom list" where
  "logo_link_pattern =
     lit ''-'' @ [Star Space] @ lit ''[!['' @ [StarLazy Dot] @ lit ''logo'' @ [StarLazy Dot] @
     lit ''](''  @ [StarLazy Dot] @ lit '')''"

definition empty_anchor_pattern :: "atom list" where
  "empty_anchor_pattern = lit ''[#](#'' @ [One Dot, Star Dot] @ lit '')'' @ [Eos]"

definition icon_link_pattern :: "atom list" where
  "icon_link_pattern =
     lit ''[vertical_align_top'' @ [StarLazy Dot] @ lit ''](#'' @ [One Dot, Star Dot] @ lit '')'' @ [Eos]"

definition numbered_item_prefix :: "atom list" where
  "numbered_item_prefix =
     [One Digit, Star Digit] @ lit ''.'' @ [One Space, Star Space] @ lit ''['' @ [StarLazy Dot] @
     lit ''](''  @ [Star Dot] @ lit '')''"

definition numbered_item_patterns :: "atom list list" where
  "numbered_item_patterns =
     [numbered_item_prefix @ [One Space, Star Space] @ lit ''chevron_right'' @ [Eos],
      numbered_item_prefix @ [Eos]]"

definition is_nav_link :: "string \<Rightarrow> bool" where
  "is_nav_link trimmedLine \<longleftrightarrow>
     re_test logo_link_pattern trimmedLine \<or>
     re_test empty_anchor_pattern trimmedLine \<or>
     re_test icon_link_pattern trimmedLine \<or>
     list_ex (\<lambda>p. re_test p trimmedLine) numbered_item_patterns"

text \<open>
  The loop of \<open>removeNavigationMenus\<close> over the lines, with \<open>skipMode\<close> and \<open>cleaned\<close>
  as arguments. The current line is the head of the remaining lines; \<open>lines[i + 1]\<close>
  is the head of the rest and \<open>lines.slice(i, Math.min(i + 20))\<close> the first 20
  remaining lines. The value is \<open>cleaned\<close> when the lines are used up.
\<close>

fun nav_loop :: "nat \<Rightarrow> string list \<Rightarrow> string list \<Rightarrow> string list" where
  "nav_loop skipMode cleaned [] = cleaned"
| "nav_loop skipMode cleaned (line # rest) =
     (let trimmedLine = trim line in
      if has_keyword trimmedLine then nav_loop skipMode cleaned rest
      else if is_section_header trimmedLine then nav_loop 2 cleaned rest
      else if startsWithDash trimmedLine \<and> rest \<noteq> [] \<and> startsWithDash (trim (hd rest)) \<and>
              isMenuList (toLowerCase (join_nl (take 20 (line # rest))))
      then nav_loop 1 cleaned rest
      else if skipMode = 1 \<and> \<not> (\<not> startsWithDash trimmedLine \<and> length trimmedLine > 0)
      then nav_loop skipMode cleaned rest
      else
        (let skipMode = (if skipMode = 1 then 0 else skipMode) in
         if skipMode = 2 then
           nav_loop (if length trimmedLine = 0 \<and> rest \<noteq> [] \<and> \<not> startsWithDash (trim (hd rest))
                     then 0 else skipMode) cleaned rest
         else if is_nav_link trimmedLine then nav_loop skipMode cleaned rest
         else nav_loop skipMode (cleaned @ [line]) rest))"

text \<open>The pattern \<open>/\n{3,}/g\<close>, replaced by two line feeds.\<close>

definition blank_run_pattern :: "atom list" where
  "blank_run_pattern = [One (Lit NL), One (Lit NL), One (Lit NL), Star (Lit NL)]"

definition collapse_blank_lines :: "string \<Rightarrow> string" where
  "collapse_blank_lines s = replace_all blank_run_pattern (\<lambda>m ms r. [NL, NL]) s"

definition removeNavigationMenus :: "string \<Rightarrow> string" where
  "removeNavigationMenus markdown =
     (let lines = split_nl markdown;
          cleaned = nav_loop 0 [] lines;
          result = collapse_blank_lines (join_nl cleaned)
      in trim result)"

text \<open>
  A line that starts with a dash once trimmed, and a plain line: one that is not
  blank, does not start with a dash and is matched by none of the rules that drop a
  line (chrome phrases, section headers, link and numbered-item patterns).
\<close>

definition is_dash_line :: "string \<Rightarrow> bool" where
  "is_dash_line line = startsWithDash (trim line)"

definition is_plain_line :: "string \<Rightarrow> bool" where
  "is_plain_line line \<longleftrightarrow>
     trim line \<noteq> [] \<and> \<not> startsWithDash (trim line) \<and> \<not> has_keyword (trim line) \<and>
     \<not> is_section_header (trim line) \<and> \<not> is_nav_link (trim line)"

definition no_section_header :: "string \<Rightarrow> bool" where
  "no_section_header line = (\<not> is_section_header (trim line))"


section \<open>core/postprocessor.js: the other passes\<close>

text \<open>
  \<open>removeHeaderNav\<close>: the patterns \<open>/^\[!\[.*?logo.*?\]\(.*?\).*?\]\(\/\)/\<close> and
  \<open>/^\[!\[.*?\]\(\/assets\/images\/branding\/.*?\)/\<close>.
\<close>

definition header_logo_pattern :: "atom list" where
  "header_logo_pattern =
     lit ''[!['' @ [StarLazy Dot] @ lit ''logo'' @ [StarLazy Dot] @ lit ''](''  @ [StarLazy Dot] @
     lit '')'' @ [StarLazy Dot] @ lit ''](/)''"

definition branding_image_pattern :: "atom list" where
  "branding_image_pattern =
     lit ''[!['' @ [StarLazy Dot] @ lit ''](/assets/images/branding/'' @ [StarLazy Dot] @ lit '')''"

fun header_loop :: "string list \<Rightarrow> string list \<Rightarrow> string list" where
  "header_loop result [] = result"
| "header_loop result (line # rest) =
     (let trimmed = trim line in
      if re_test header_logo_pattern trimmed then header_loop result rest
      else if re_test branding_image_pattern trimmed then header_loop result rest
      else header_loop (result @ [line]) rest)"

definition removeHeaderNav :: "string \<Rightarrow> string" where
  "removeHeaderNav markdown = join_nl (header_loop [] (split_nl markdown))"

text \<open>
  \<open>convertDefinitionLists\<close>: the five replacements, in order. The first pattern has
  the flags \<open>gis\<close>, the next three \<open>gi\<close>, the last \<open>g\<close>.
\<close>

definition dt_dd_pattern :: "atom list" where
  "dt_dd_pattern =
     lit_ci ''<dt>'' @ [Mark, StarLazy DotAll, Mark] @ lit_ci ''</dt>'' @ [Star Space] @
     lit_ci ''<dd>'' @ [Mark, StarLazy DotAll, Mark] @ lit_ci ''</dd>''"

definition dt_pattern :: "atom list" where
  "dt_pattern = lit_ci ''<dt>'' @ [Mark, StarLazy Dot, Mark] @ lit_ci ''</dt>''"

definition dd_pattern :: "atom list" where
  "dd_pattern = lit_ci ''<dd>'' @ [Mark, StarLazy Dot, Mark] @ lit_ci ''</dd>''"

definition dl_pattern :: "atom list" where
  "dl_pattern = lit ''<'' @ [Opt (Lit CHR ''/'')] @ lit_ci ''dl>''"

definition empty_description_pattern :: "atom list" where
  "empty_description_pattern = [One (Lit NL), One (Lit CHR '':''), Star Space, One (Lit NL)]"

text \<open>The text of capture group \<open>k\<close> (counted from 0) of a match.\<close>

definition group :: "string list \<Rightarrow> nat \<Rightarrow> string" where
  "group ms k = (if 2 * k + 1 < length ms then between (ms ! (2 * k)) (ms ! (2 * k + 1)) else [])"

definition convertDefinitionLists :: "string \<Rightarrow> string" where
  "convertDefinitionLists markdown =
     (let cleaned = markdown;
          cleaned = replace_all dt_dd_pattern
                      (\<lambda>m ms r. ''**'' @ group ms 0 @ ''**'' @ [NL] @ '': '' @ trim (group ms 1) @ [NL])
                      cleaned;
          cleaned = replace_all dt_pattern (\<lambda>m ms r. ''**'' @ group ms 0 @ ''**'' @ [NL]) cleaned;
          cleaned = replace_all dd_pattern (\<lambda>m ms r. '': '' @ group ms 0 @ [NL]) cleaned;
          cleaned = replace_all dl_pattern (\<lambda>m ms r. []) cleaned;
          cleaned = replace_all empty_description_pattern (\<lambda>m ms r. [NL]) cleaned
      in cleaned)"

text \<open>
  \<open>stripRemainingHtml\<close>: the pattern built for each tag to remove, the five patterns
  of the self-closing tags, and the last pattern with its negative lookahead over
  the allowed tag names. All have the flags \<open>gis\<close> or \<open>gi\<close>.
\<close>

definition tagsToRemove :: "string list" where
  "tagsToRemove = [''script'', ''style'', ''nav'', ''footer'', ''header'', ''aside'', ''navlink'']"

definition element_pattern :: "string \<Rightarrow> atom list" where
  "element_pattern tag =
     lit ''<'' @ lit_ci tag @ [Star (NotC CHR ''>'')] @ lit ''>'' @ [StarLazy DotAll] @
     lit ''</'' @ lit_ci tag @ lit ''>''"

definition selfClosingTags :: "atom list list" where
  "selfClosingTags =
     [lit ''<'' @ lit_ci ''img'' @ [Star (NotC CHR ''>'')] @ lit ''>'',
      lit ''<'' @ lit_ci ''br'' @ [Star Space, Opt (Lit CHR ''/'')] @ lit ''>'',
      lit ''<'' @ lit_ci ''hr'' @ [Star Space, Opt (Lit CHR ''/'')] @ lit ''>'',
      lit ''<'' @ lit_ci ''input'' @ [Star (NotC CHR ''>'')] @ lit ''>'',
      lit ''<'' @ lit_ci ''button'' @ [Star (NotC CHR ''>'')] @ lit ''>'' @ [StarLazy DotAll] @
        lit ''</'' @ lit_ci ''button'' @ lit ''>'']"

definition allowed_tag_names :: "atom list list" where
  "allowed_tag_names =
     map lit_ci [''code'', ''pre'', ''kbd'', ''samp'', ''strong'', ''em'', ''a'', ''p''] @
     [[One (LitCI CHR ''h''), One (Range CHR ''1'' CHR ''6'')]] @
     map lit_ci [''ul'', ''ol'', ''li'', ''blockquote'', ''div'', ''span'']"

definition other_tag_pattern :: "atom list" where
  "other_tag_pattern =
     lit ''<'' @ [NotAhead (map (\<lambda>name. Opt (Lit CHR ''/'') # name @ [WordEnd]) allowed_tag_names)] @
     [One (NotC CHR ''>''), Star (NotC CHR ''>'')] @ lit ''>''"

definition remove_all :: "atom list \<Rightarrow> string \<Rightarrow> string" where
  "remove_all p s = replace_all p (\<lambda>m ms r. []) s"

definition stripRemainingHtml :: "string \<Rightarrow> string" where
  "stripRemainingHtml markdown =
     (let cleaned = markdown;
          cleaned = fold (\<lambda>tag cleaned. remove_all (element_pattern tag) cleaned) tagsToRemove cleaned;
          cleaned = fold (\<lambda>tag cleaned. remove_all tag cleaned) selfClosingTags cleaned;
          cleaned = remove_all other_tag_pattern cleaned
      in cleaned)"

definition cleanWhitespace :: "string \<Rightarrow> string" where
  "cleanWhitespace markdown =
     (let cleaned = markdown;
          cleaned = collapse_blank_lines cleaned;
          cleaned = join_nl (map trimEnd (split_nl cleaned))
      in cleaned)"

text \<open>
  \<open>postProcessMarkdown\<close> with its options after destructuring (defaults
  \<open>preserveBreadcrumbs = false\<close>, \<open>convertHtmlTags = true\<close>). Logging is left out.
\<close>

record post_options =
  preserveBreadcrumbs :: bool
  convertHtmlTags :: bool

definition default_post_options :: post_options where
  "default_post_options = \<lparr>preserveBreadcrumbs = False, convertHtmlTags = True\<rparr>"

definition postProcessMarkdown :: "string \<Rightarrow> post_options \<Rightarrow> string" where
  "postProcessMarkdown markdown options =
     (let processed = markdown;
          processed = removeHeaderNav processed;
          processed = removeDuplicateTOC processed;
          processed = convertDefinitionLists processed;
          processed = (if convertHtmlTags options then stripRemainingHtml processed else processed);
          processed = removeNavigationMenus processed;
          processed = cleanWhitespace processed
      in processed)"

text \<open>
  The working text on which whitespace cleanup runs: the result of the passes before
  it. \<open>postProcessMarkdown\<close> is \<open>cleanWhitespace\<close> of it.
\<close>

definition before_cleanWhitespace :: "string \<Rightarrow> post_options \<Rightarrow> string" where
  "before_cleanWhitespace markdown options =
     (let processed = markdown;
          processed = removeHeaderNav processed;
          processed = removeDuplicateTOC processed;
          processed = convertDefinitionLists processed;
          processed = (if convertHtmlTags options then stripRemainingHtml processed else processed)
      in removeNavigationMenus processed)"

text \<open>
  Two consecutive blank lines among the lines of a text, and a line that is not
  empty and consists of white space only.
\<close>

fun consecutive_blank :: "string list \<Rightarrow> bool" where
  "consecutive_blank (a # b # rest) = ((a = [] \<and> b = []) \<or> consecutive_blank (b # rest))"
| "consecutive_blank _ = False"

definition whitespace_only :: "string \<Rightarrow> bool" where
  "whitespace_only line \<longleftrightarrow> line \<noteq> [] \<and> trimEnd line = []"

text \<open>
  A text free of chrome: no line is matched by a chrome phrase, a section header
  pattern, a link or numbered-item pattern or a header logo pattern, and no line
  starts a menu list (a dash line followed by a dash line with a menu-shaped window).
\<close>

definition chrome_free_line :: "string \<Rightarrow> bool" where
  "chrome_free_line line \<longleftrightarrow>
     \<not> has_keyword (trim line) \<and> \<not> is_section_header (trim line) \<and> \<not> is_nav_link (trim line) \<and>
     \<not> re_test header_logo_pattern (trim line) \<and> \<not> re_test branding_image_pattern (trim line)"

fun menu_shape_free :: "string list \<Rightarrow> bool" where
  "menu_shape_free [] = True"
| "menu_shape_free (line # rest) =
     (\<not> (startsWithDash (trim line) \<and> rest \<noteq> [] \<and> startsWithDash (trim (hd rest)) \<and>
         isMenuList (toLowerCase (join_nl (take 20 (line # rest))))) \<and>
      menu_shape_free rest)"

definition chrome_free :: "string \<Rightarrow> bool" where
  "chrome_free markdown \<longleftrightarrow>
     list_all chrome_free_line (split_nl markdown) \<and> menu_shape_free (split_nl markdown)"

text \<open>
  An inert line: free of chrome, with no \<open><\<close>, not white space only, not a TOC item,
  and not starting with a colon once trimmed. An inert text has inert lines only,
  and either no line that starts with a dash or no menu-shaped content at all; no
  pass before the blank-line collapse finds anything to rewrite in it.
\<close>

definition inert_line :: "string \<Rightarrow> bool" where
  "inert_line line \<longleftrightarrow>
     chrome_free_line line \<and> CHR ''<'' \<notin> set line \<and> \<not> whitespace_only line \<and>
     \<not> isTocItem line \<and> \<not> prefix '':'' (trim line)"

definition no_dash_line :: "string \<Rightarrow> bool" where
  "no_dash_line line = (\<not> startsWithDash (trim line))"

definition menu_inert :: "string \<Rightarrow> bool" where
  "menu_inert markdown \<longleftrightarrow>
     list_all no_dash_line (split_nl markdown) \<or> \<not> isMenuList (toLowerCase markdown)"

definition inert_text :: "string \<Rightarrow> bool" where
  "inert_text markdown \<longleftrightarrow> list_all inert_line (split_nl markdown) \<and> menu_inert markdown"

section \<open>Example errors and operations\<close>

text \<open>
  Concrete errors and operations on which the properties below are evaluated:
  a plain \<open>Error\<close> with chosen \<open>name\<close>, \<open>message\<close>, \<open>code\<close> and \<open>status\<close>,
  operations that throw at every attempt, and a fixed value for \<open>Math.random()\<close>.
\<close>

definition plain_error :: "string \<Rightarrow> string \<Rightarrow> string option \<Rightarrow> int option \<Rightarrow> js_error" where
  "plain_error n msg c st = JsError n msg c st None False None"

definition err404 :: js_error where
  "err404 = plain_error ''Error'' ''Not Found'' None (Some 404)"

definition err503 :: js_error where
  "err503 = plain_error ''Error'' ''Service Unavailable'' None (Some 503)"

definition timeout404 :: js_error where
  "timeout404 = plain_error ''TimeoutError'' ''Timeout 8000ms exceeded'' None (Some 404)"

definition scraping_etimedout :: js_error where
  "scraping_etimedout = ScrapingError ''connect ETIMEDOUT'' ''ETIMEDOUT'' [] None"

definition scraping_marked :: js_error where
  "scraping_marked = ScrapingError ''bad input'' VALIDATION [(''nonRetryable'', CBool True)] None"

definition op_always_marked :: "nat \<Rightarrow> js_error + unit" where
  "op_always_marked attempt = Inl scraping_marked"

definition single_attempt :: retry_options where
  "single_attempt = default_options\<lparr>maxAttempts := 1\<rparr>"

definition op_503_then_404 :: "nat \<Rightarrow> js_error + unit" where
  "op_503_then_404 attempt = (if attempt < 3 then Inl err503 else Inl err404)"

definition op_503_404_early :: "nat \<Rightarrow> js_error + unit" where
  "op_503_404_early attempt = (if attempt < 2 then Inl err503 else Inl err404)"

definition op_always_503 :: "nat \<Rightarrow> js_error + unit" where
  "op_always_503 attempt = Inl err503"

definition op_always_scraping :: "nat \<Rightarrow> js_error + unit" where
  "op_always_scraping attempt = Inl scraping_etimedout"

definition one_half :: number where
  "one_half = Finite False 4503599627370496 (- 53)"

definition mid_random :: "nat \<Rightarrow> number" where
  "mid_random k = one_half"

definition status_error :: "int \<Rightarrow> js_error" where
  "status_error s = plain_error ''Error'' [] None (Some s)"

text \<open>Attempts \<open>a .. k - 1\<close> of the operation all throw an error that is retryable.\<close>

definition fails_retryably :: "(nat \<Rightarrow> js_error + 'a) \<Rightarrow> nat \<Rightarrow> nat \<Rightarrow> bool" where
  "fails_retryably operation a k =
     (\<forall>j. a \<le> j \<and> j < k \<longrightarrow> (case operation j of Inl e \<Rightarrow> isRetryableError e | Inr _ \<Rightarrow> False))"

section \<open>Example documents\<close>

text \<open>Lines and documents on which the properties of the passes are evaluated.\<close>

definition toc_block3 :: "string list" where
  "toc_block3 = [''- [Overview](#overview)'', ''- [Install](#install)'', ''- [Usage](#usage)'']"

definition toc_block5 :: "string list" where
  "toc_block5 =
     [''- [Overview](#overview)'', ''- [Install](#install)'', ''- [Usage](#usage)'',
      ''  - [Options](#options)'', ''- [License](#license)'']"

definition doc_toc_at_end :: string where
  "doc_toc_at_end = join_nl ([''# Guide'', ''''] @ toc_block3)"

definition doc_two_tocs :: string where
  "doc_two_tocs =
     join_nl ([''# Guide''] @ toc_block5 @ [''Some body text.'', ''More body text.''] @ toc_block5 @
              [''The end.''])"

definition doc_single_item :: string where
  "doc_single_item = join_nl ([''intro'', ''- [Top](#top)'', ''body''] @ toc_block3 @ [''end''])"

definition doc_35_items :: string where
  "doc_35_items = join_nl ([''intro''] @ replicate 35 ''- [Item](#item)'' @ [''body''])"

definition menu_with_phrase :: "string list" where
  "menu_with_phrase = [''- Logo - learn more'', ''- Navigate to home'', ''- Docs'', ''- Blog'']"

definition menu_lines :: "string list" where
  "menu_lines = [''- Logo'', ''- Navigate to home'', ''- Docs'', ''- Blog'']"

definition doc_menu_with_phrase :: string where
  "doc_menu_with_phrase = join_nl (menu_with_phrase @ [''Welcome to the docs.''])"

definition doc_menu :: string where
  "doc_menu = join_nl ([''# Title'', ''''] @ menu_lines @ [''Welcome to the docs.'', ''Bye.''])"

definition doc_blank_with_spaces :: string where
  "doc_blank_with_spaces = join_nl [''a'', '' '', '' '', ''b'']"

definition doc_blank_lines :: string where
  "doc_blank_lines = join_nl [''a'', '''', '''', '''', '''', ''b  '', '''']"

definition doc_prose :: string where
  "doc_prose =
     join_nl ['''', ''  Title  '', '''', '''', '''', ''Some text. '', ''- first item'',
              ''  - second item '', '''', '''', ''1 + 1 = 2'', '''']"

section \<open>Properties of splitting and joining lines\<close>

lemma split_nl_nonempty [simp]: "split_nl s \<noteq> []"
  by (induction s) (auto split: list.splits)

lemma join_nl_Cons: "ls \<noteq> [] \<Longrightarrow> join_nl (l # ls) = l @ NL # join_nl ls"
  by (cases ls) auto

lemma join_split_nl [simp]: "join_nl (split_nl s) = s"
proof (induction s)
  case Nil
  show ?case by simp
next
  case (Cons c s)
  show ?case
  proof (cases "c = NL")
    case True
    then show ?thesis using Cons by (simp add: join_nl_Cons)
  next
    case False
    obtain l ls where sp: "split_nl s = l # ls"
      by (cases "split_nl s") auto
    have "join_nl ((c # l) # ls) = c # join_nl (l # ls)"
      by (cases ls) auto
    then show ?thesis using False Cons sp by simp
  qed
qed

lemma split_nl_no_NL: "l \<in> set (split_nl s) \<Longrightarrow> NL \<notin> set l"
proof (induction s arbitrary: l)
  case Nil
  then show ?case by simp
next
  case (Cons c s)
  show ?case
  proof (cases "c = NL")
    case True
    then show ?thesis using Cons by auto
  next
    case False
    obtain k ks where sp: "split_nl s = k # ks"
      by (cases "split_nl s") auto
    then have "l = c # k \<or> l \<in> set ks" using Cons.prems False by simp
    then show ?thesis using Cons.IH[of k] Cons.IH[of l] sp False by auto
  qed
qed

lemma split_nl_line: "NL \<notin> set l \<Longrightarrow> split_nl l = [l]"
  by (induction l) auto

lemma split_nl_append_line: "NL \<notin> set l \<Longrightarrow> split_nl (l @ NL # s) = l # split_nl s"
  by (induction l) auto

lemma split_join_nl:
  "ls \<noteq> [] \<Longrightarrow> \<forall>l\<in>set ls. NL \<notin> set l \<Longrightarrow> split_nl (join_nl ls) = ls"
proof (induction ls rule: join_nl.induct)
  case 1
  then show ?case by simp
next
  case (2 l)
  then show ?case by (simp add: split_nl_line)
next
  case (3 l k ks)
  then show ?case by (simp add: split_nl_append_line)
qed

lemma split_nl_NL [simp]: "split_nl (NL # s) = [] # split_nl s"
  by simp

lemma split_nl_not_NL: "c \<noteq> NL \<Longrightarrow> split_nl (c # s) = (c # hd (split_nl s)) # tl (split_nl s)"
  by (cases "split_nl s") auto

declare split_nl.simps(2) [simp del]

section \<open>Properties of Number arithmetic\<close>

text \<open>
  Powers of two, the bit length of a significand, and rounding to the nearest integer
  with ties to even.
\<close>

lemma p2_less_iff: "(2::real) powi a < 2 powi b \<longleftrightarrow> a < b"
proof
  assume "(2::real) powi a < 2 powi b"
  show "a < b"
  proof (rule ccontr)
    assume "\<not> a < b"
    then have "b \<le> a" by simp
    then have "(2::real) powi b \<le> 2 powi a" by (intro power_int_increasing) auto
    with \<open>(2::real) powi a < 2 powi b\<close> show False by simp
  qed
next
  assume "a < b"
  then show "(2::real) powi a < 2 powi b" by (intro power_int_strict_increasing) auto
qed

lemma p2_le_iff: "(2::real) powi a \<le> 2 powi b \<longleftrightarrow> a \<le> b"
  using p2_less_iff[of b a] by (auto simp: not_less[symmetric])

lemma p2_add: "(2::real) powi (a + b) = 2 powi a * 2 powi b"
  by (simp add: power_int_add)

lemma p2_diff: "(2::real) powi (a - b) = 2 powi a / 2 powi b"
  by (simp add: power_int_diff)

lemma dyadic_bounds:
  assumes "0 < M"
  shows "2 powi (int (floorlog 2 M) + E - 1) \<le> dyadic M E"
    and "dyadic M E < 2 powi (int (floorlog 2 M) + E)"
proof -
  from floorlog_bounds[of M 2] assms
  have b: "2 ^ (floorlog 2 M - 1) \<le> M" "M < 2 ^ floorlog 2 M" by auto
  have pos: "0 < floorlog 2 M" using assms by (simp add: floorlog_def)
  have "real (2 ^ (floorlog 2 M - 1)) \<le> real M" using b(1) of_nat_le_iff by blast
  then have "(2::real) powi (int (floorlog 2 M) - 1) \<le> real M"
    using pos by (simp add: power_int_def nat_diff_distrib)
  then have "(2::real) powi (int (floorlog 2 M) - 1) * 2 powi E \<le> real M * 2 powi E"
    by (intro mult_right_mono) auto
  then show "2 powi (int (floorlog 2 M) + E - 1) \<le> dyadic M E"
    by (simp add: dyadic_def p2_add[symmetric] algebra_simps)
  have "real M < real (2 ^ floorlog 2 M)" using b(2) of_nat_less_iff by blast
  then have "real M < (2::real) powi (int (floorlog 2 M))" by simp
  then have "real M * 2 powi E < (2::real) powi (int (floorlog 2 M)) * 2 powi E"
    by (rule mult_strict_right_mono) simp
  then show "dyadic M E < 2 powi (int (floorlog 2 M) + E)"
    unfolding dyadic_def p2_add .
qed

lemma nearest_even_of_int [simp]: "nearest_even (of_int n) = n"
  by (simp add: nearest_even_def)

lemma nearest_even_of_nat [simp]: "nearest_even (real n) = int n"
  using nearest_even_of_int[of "int n"] by simp

lemma nearest_even_range: "\<lfloor>y\<rfloor> \<le> nearest_even y \<and> nearest_even y \<le> \<lfloor>y\<rfloor> + 1"
  by (simp add: nearest_even_def Let_def)

lemma nearest_even_mono:
  assumes "x \<le> y"
  shows "nearest_even x \<le> nearest_even y"
proof (cases "\<lfloor>x\<rfloor> = \<lfloor>y\<rfloor>")
  case True
  have "x - of_int \<lfloor>y\<rfloor> \<le> y - of_int \<lfloor>y\<rfloor>" using assms by simp
  then show ?thesis
    unfolding nearest_even_def Let_def True by auto
next
  case False
  then have "\<lfloor>x\<rfloor> < \<lfloor>y\<rfloor>" using floor_mono[OF assms] by simp
  then show ?thesis
    using nearest_even_range[of x] nearest_even_range[of y] by linarith
qed

lemma round_shift_nearest: "int (round_shift M k) = nearest_even (real M / 2 ^ k)"
proof (cases "k = 0")
  case True
  then show ?thesis by (simp add: round_shift_def)
next
  case False
  define q where "q = M div 2 ^ k"
  define r where "r = M mod 2 ^ k"
  have M: "M = q * 2 ^ k + r" unfolding q_def r_def by (rule div_mult_mod_eq[symmetric])
  have r: "r < 2 ^ k" by (simp add: r_def)
  have fl: "\<lfloor>real M / 2 ^ k\<rfloor> = int q"
    using floor_divide_of_nat_eq[of M "2 ^ k"] by (simp add: q_def)
  have d: "real M / 2 ^ k - real q = real r / 2 ^ k"
    by (simp add: M field_simps)
  have h: "(2::nat) ^ k = 2 * 2 ^ (k - 1)" using False by (cases k) auto
  have hr: "(2::real) ^ k = 2 * 2 ^ (k - 1)" using False by (cases k) auto
  have lt: "real r / 2 ^ k < 1 / 2 \<longleftrightarrow> r < 2 ^ (k - 1)"
  proof -
    have "real r / 2 ^ k < 1 / 2 \<longleftrightarrow> real r < real (2 ^ (k - 1))"
      by (simp add: hr field_simps)
    then show ?thesis using of_nat_less_iff by blast
  qed
  have gt: "1 / 2 < real r / 2 ^ k \<longleftrightarrow> 2 ^ (k - 1) < r"
  proof -
    have "1 / 2 < real r / 2 ^ k \<longleftrightarrow> real (2 ^ (k - 1)) < real r"
      by (simp add: hr field_simps)
    then show ?thesis using of_nat_less_iff by blast
  qed
  show ?thesis
    unfolding round_shift_def nearest_even_def Let_def fl q_def[symmetric] r_def[symmetric]
    using False lt gt d
    by (auto simp: not_less)
qed

text \<open>
  The significand that \<open>to_double\<close> computes is the scaled exact value rounded to the
  nearest integer, ties to even; the rounded value is monotone in the exact value.
\<close>

lemma scale_shift: "dyadic M E * 2 powi (- t) = real M * 2 powi (E - t)"
  using p2_add[of E "- t"] by (simp add: dyadic_def)

lemma significand_nearest:
  "int (significand M E) = nearest_even (dyadic M E * 2 powi (- ulp_exponent M E))"
proof (cases "ulp_exponent M E \<le> E")
  case True
  define t where "t = ulp_exponent M E"
  have "real M * 2 powi (E - t) = real (M * 2 ^ nat (E - t))"
    using True by (simp add: t_def power_int_def)
  then have eq: "dyadic M E * 2 powi (- t) = real (M * 2 ^ nat (E - t))"
    by (simp only: scale_shift)
  have s: "significand M E = M * 2 ^ nat (E - t)"
    using True by (simp add: significand_def t_def)
  show ?thesis
    unfolding t_def[symmetric] by (simp only: eq s nearest_even_of_nat)
next
  case False
  define t where "t = ulp_exponent M E"
  have "real M * 2 powi (E - t) = real M / 2 ^ nat (t - E)"
    using False by (simp add: t_def power_int_def field_simps)
  then have eq: "dyadic M E * 2 powi (- t) = real M / 2 ^ nat (t - E)"
    by (simp only: scale_shift)
  have s: "significand M E = round_shift M (nat (t - E))"
    using False by (simp add: significand_def t_def)
  show ?thesis
    unfolding t_def[symmetric] by (simp only: eq s round_shift_nearest)
qed

lemma rounded_eq:
  "rounded M E = of_int (nearest_even (dyadic M E * 2 powi (- ulp_exponent M E))) * 2 powi ulp_exponent M E"
  unfolding rounded_def significand_nearest[symmetric] by simp

lemma ulp_exponent_mono:
  assumes "0 < M1" and "dyadic M1 E1 \<le> dyadic M2 E2"
  shows "ulp_exponent M1 E1 \<le> ulp_exponent M2 E2"
proof -
  have M2: "0 < M2"
  proof (rule ccontr)
    assume "\<not> 0 < M2"
    then have "dyadic M2 E2 = 0" by (simp add: dyadic_def)
    moreover have "0 < dyadic M1 E1" using assms(1) by (simp add: dyadic_def)
    ultimately show False using assms(2) by simp
  qed
  have "2 powi (int (floorlog 2 M1) + E1 - 1) \<le> dyadic M1 E1"
    using dyadic_bounds(1)[OF assms(1)] .
  also have "\<dots> \<le> dyadic M2 E2" by fact
  also have "\<dots> < 2 powi (int (floorlog 2 M2) + E2)"
    using dyadic_bounds(2)[OF M2] .
  finally have "int (floorlog 2 M1) + E1 - 1 < int (floorlog 2 M2) + E2"
    by (simp only: p2_less_iff)
  then show ?thesis by (simp add: ulp_exponent_def)
qed

lemma scaled_upper:
  assumes "0 < M"
  shows "dyadic M E * 2 powi (- ulp_exponent M E) < 2 ^ 53"
proof -
  define t where "t = ulp_exponent M E"
  have t: "int (floorlog 2 M) + E - 53 \<le> t" by (simp add: t_def ulp_exponent_def)
  have "dyadic M E * 2 powi (- t) < 2 powi (int (floorlog 2 M) + E) * 2 powi (- t)"
    by (rule mult_strict_right_mono[OF dyadic_bounds(2)[OF assms]]) simp
  also have "\<dots> = 2 powi (int (floorlog 2 M) + E - t)"
    using p2_add[of "int (floorlog 2 M) + E" "- t"] by simp
  also have "\<dots> \<le> 2 powi 53"
    unfolding p2_le_iff using t by simp
  finally show ?thesis by (simp add: t_def)
qed

lemma scaled_lower:
  assumes "0 < M" and "- 1074 < ulp_exponent M E"
  shows "2 ^ 52 \<le> dyadic M E * 2 powi (- ulp_exponent M E)"
proof -
  define t where "t = ulp_exponent M E"
  have t: "t = int (floorlog 2 M) + E - 53"
    using assms(2) by (simp add: t_def ulp_exponent_def max_def split: if_splits)
  have "(2::real) powi 52 = 2 powi (int (floorlog 2 M) + E - 1 - t)"
    by (simp add: t)
  also have "\<dots> = 2 powi (int (floorlog 2 M) + E - 1) * 2 powi (- t)"
    using p2_add[of "int (floorlog 2 M) + E - 1" "- t"] by simp
  also have "\<dots> \<le> dyadic M E * 2 powi (- t)"
    by (rule mult_right_mono[OF dyadic_bounds(1)[OF assms(1)]]) simp
  finally show ?thesis by (simp add: t_def)
qed

lemma significand_upper: "significand M E \<le> 2 ^ 53"
proof (cases "0 < M")
  case True
  have "nearest_even (dyadic M E * 2 powi (- ulp_exponent M E)) \<le> nearest_even (real (2 ^ 53))"
    by (rule nearest_even_mono) (use scaled_upper[OF True, of E] in simp)
  then have "int (significand M E) \<le> int (2 ^ 53)"
    unfolding significand_nearest nearest_even_of_nat .
  then show ?thesis by linarith
next
  case False
  then show ?thesis by (simp add: significand_def round_shift_def Let_def)
qed

lemma significand_lower:
  assumes "0 < M" and "- 1074 < ulp_exponent M E"
  shows "2 ^ 52 \<le> significand M E"
proof -
  have "nearest_even (real (2 ^ 52)) \<le> nearest_even (dyadic M E * 2 powi (- ulp_exponent M E))"
    by (rule nearest_even_mono) (use scaled_lower[OF assms] in simp)
  then have "int (2 ^ 52) \<le> int (significand M E)"
    unfolding significand_nearest nearest_even_of_nat .
  then show ?thesis by linarith
qed

lemma rounded_mono:
  assumes "dyadic M1 E1 \<le> dyadic M2 E2"
  shows "rounded M1 E1 \<le> rounded M2 E2"
proof (cases "0 < M1")
  case False
  then have "significand M1 E1 = 0" by (simp add: significand_def round_shift_def Let_def)
  then show ?thesis by (simp add: rounded_def)
next
  case True
  have M2: "0 < M2"
  proof (rule ccontr)
    assume "\<not> 0 < M2"
    then have "dyadic M2 E2 = 0" by (simp add: dyadic_def)
    moreover have "0 < dyadic M1 E1" using True by (simp add: dyadic_def)
    ultimately show False using assms by simp
  qed
  define t1 where "t1 = ulp_exponent M1 E1"
  define t2 where "t2 = ulp_exponent M2 E2"
  have le: "t1 \<le> t2" unfolding t1_def t2_def by (rule ulp_exponent_mono[OF True assms])
  show ?thesis
  proof (cases "t1 = t2")
    case True
    have "dyadic M1 E1 * 2 powi (- t2) \<le> dyadic M2 E2 * 2 powi (- t2)"
      by (rule mult_right_mono[OF assms]) simp
    then have "nearest_even (dyadic M1 E1 * 2 powi (- t2)) \<le> nearest_even (dyadic M2 E2 * 2 powi (- t2))"
      by (rule nearest_even_mono)
    then have "real_of_int (nearest_even (dyadic M1 E1 * 2 powi (- t2))) * 2 powi t2
        \<le> real_of_int (nearest_even (dyadic M2 E2 * 2 powi (- t2))) * 2 powi t2"
      by (intro mult_right_mono) auto
    then show ?thesis
      unfolding rounded_eq t1_def[symmetric] t2_def[symmetric] True .
  next
    case False
    then have lt: "t1 + 1 \<le> t2" using le by simp
    have t2: "- 1074 < t2"
    proof -
      have "- 1074 \<le> t1" by (simp add: t1_def ulp_exponent_def)
      then show ?thesis using lt by simp
    qed
    have "rounded M1 E1 \<le> real (2 ^ 53) * 2 powi t1"
      unfolding rounded_def t1_def[symmetric]
      by (rule mult_right_mono) (use significand_upper[of M1 E1] of_nat_le_iff in \<open>blast, simp\<close>)
    also have "\<dots> = 2 powi (53 + t1)"
      using p2_add[of 53 t1] by simp
    also have "\<dots> \<le> 2 powi (52 + t2)"
      unfolding p2_le_iff using lt by simp
    also have "\<dots> = real (2 ^ 52) * 2 powi t2"
      using p2_add[of 52 t2] by simp
    also have "\<dots> \<le> rounded M2 E2"
      unfolding rounded_def t2_def[symmetric]
      by (rule mult_right_mono)
         (use significand_lower[OF M2, of E2] t2 of_nat_le_iff in \<open>unfold t2_def, blast, simp\<close>)
    finally show ?thesis .
  qed
qed

text \<open>Evaluation of the bit length on numerals, and the definitions to unfold.\<close>

lemma floorlog2_simps [simp]:
  "floorlog 2 0 = 0"
  "floorlog 2 (Suc 0) = 1"
  "floorlog 2 1 = 1"
  "floorlog 2 (numeral (Num.Bit0 k)) = Suc (floorlog 2 (numeral k))"
  "floorlog 2 (numeral (Num.Bit1 k)) = Suc (floorlog 2 (numeral k))"
proof -
  show "floorlog 2 0 = 0" by (simp add: floorlog_def)
  show a: "floorlog 2 (Suc 0) = 1" by (subst compute_floorlog) (simp add: floorlog_def)
  show "floorlog 2 1 = 1" using a by simp
  show "floorlog 2 (numeral (Num.Bit0 k)) = Suc (floorlog 2 (numeral k))"
    by (subst compute_floorlog) simp
  have "(numeral (Num.Bit1 k) :: nat) div 2 = numeral k" by simp
  then show "floorlog 2 (numeral (Num.Bit1 k)) = Suc (floorlog 2 (numeral k))"
    by (subst compute_floorlog) simp
qed

lemmas double_simps =
  to_double_def ulp_exponent_def significand_def round_shift_def signed_def Let_def
  js_pow2_def js_nat_def js_sub_def Math_min_def

lemma to_double_zero [simp]: "to_double s 0 E = Finite s 0 (- 1074)"
  by (simp add: double_simps)

text \<open>
  \<open>to_double\<close> returns a finite Number whose value is the rounded value, or overflows;
  comparisons of finite Numbers are comparisons of their values; a sum of finite Numbers
  is the rounded exact sum.
\<close>

lemma dyadic_zero [simp]: "dyadic 0 E = 0"
  by (simp add: dyadic_def)

lemma dyadic_nonneg [simp]: "0 \<le> dyadic M E"
  by (simp add: dyadic_def)

lemma dyadic_not_neg [simp]: "\<not> dyadic M E < 0"
  by (simp add: dyadic_def not_less)

lemma dyadic_pos_iff [simp]: "0 < dyadic M E \<longleftrightarrow> 0 < M"
  by (simp add: dyadic_def zero_less_mult_iff)

lemma dyadic_le_zero_iff [simp]: "dyadic M E \<le> 0 \<longleftrightarrow> M = 0"
proof -
  have "dyadic M E \<le> 0 \<longleftrightarrow> \<not> 0 < dyadic M E" by (simp only: not_less)
  then show ?thesis unfolding dyadic_pos_iff by simp
qed

lemma significand_zero_iff: "significand 0 E = 0"
  by (simp add: significand_def round_shift_def Let_def)

lemma to_double_cases:
  "(\<exists>n t. to_double s M E = Finite s n t \<and> dyadic n t = rounded M E \<and> rounded M E < 2 powi 1024) \<or>
   (to_double s M E = Infinite s \<and> 2 powi 1024 \<le> rounded M E)"
proof -
  define n where "n = significand M E"
  define t where "t = ulp_exponent M E"
  have r: "rounded M E = real n * 2 powi t" by (simp add: rounded_def n_def t_def)
  have td: "to_double s M E =
      (if n = 0 then Finite s 0 (- 1074)
       else if n = 2 ^ 53 then (if t + 1 > 971 then Infinite s else Finite s (2 ^ 52) (t + 1))
       else if t > 971 then Infinite s
       else Finite s n t)"
    by (simp add: to_double_def Let_def n_def t_def)
  have up: "n \<le> 2 ^ 53" unfolding n_def by (rule significand_upper)
  consider (zero) "n = 0" | (top) "n = 2 ^ 53" | (mid) "0 < n" "n < 2 ^ 53"
    using up by linarith
  then show ?thesis
  proof cases
    case zero
    then show ?thesis by (simp add: td r)
  next
    case top
    have rr: "rounded M E = 2 powi (53 + t)"
      using p2_add[of 53 t] by (simp add: r top)
    show ?thesis
    proof (cases "t + 1 > 971")
      case True
      then have "(2::real) powi 1024 \<le> 2 powi (53 + t)" unfolding p2_le_iff by simp
      then show ?thesis using True top by (simp add: td rr)
    next
      case False
      then have "(2::real) powi (53 + t) < 2 powi 1024" unfolding p2_less_iff by simp
      moreover have "dyadic (2 ^ 52) (t + 1) = 2 powi (53 + t)"
        using p2_add[of 52 "t + 1"] by (simp add: dyadic_def algebra_simps)
      ultimately show ?thesis using False top by (simp add: td rr)
    qed
  next
    case mid
    have M: "0 < M"
    proof (rule ccontr)
      assume "\<not> 0 < M"
      then have "n = 0" by (simp add: n_def significand_zero_iff)
      with mid show False by simp
    qed
    show ?thesis
    proof (cases "t > 971")
      case True
      then have "- 1074 < ulp_exponent M E" by (simp add: t_def)
      from significand_lower[OF M this] have "real (2 ^ 52) \<le> real n"
        unfolding n_def using of_nat_le_iff by blast
      then have a: "real (2 ^ 52) * 2 powi t \<le> real n * 2 powi t"
        by (rule mult_right_mono) simp
      have b: "real (2 ^ 52) * 2 powi t = 2 powi (52 + t)"
        using p2_add[of 52 t] by simp
      have "(2::real) powi 1024 \<le> 2 powi (52 + t)"
        unfolding p2_le_iff using True by simp
      also have "\<dots> \<le> real n * 2 powi t" using a unfolding b .
      finally have "2 powi 1024 \<le> rounded M E" unfolding r .
      then show ?thesis using True mid by (simp add: td)
    next
      case False
      have "real n < real (2 ^ 53)" using mid(2) of_nat_less_iff by blast
      then have "real n * 2 powi t < real (2 ^ 53) * 2 powi t"
        by (rule mult_strict_right_mono) simp
      also have "real (2 ^ 53) * 2 powi t = 2 powi (53 + t)"
        using p2_add[of 53 t] by simp
      also have "(2::real) powi (53 + t) \<le> 2 powi 1024"
        unfolding p2_le_iff using False by simp
      finally have "rounded M E < 2 powi 1024" unfolding r .
      then show ?thesis using False mid by (simp add: td r dyadic_def)
    qed
  qed
qed

lemma to_double_not_NaN [simp]: "to_double s M E \<noteq> NaN"
  using to_double_cases[of s M E] by auto

lemma to_double_value:
  assumes "to_double s M E = Finite s' n t"
  shows "s' = s" and "dyadic n t = rounded M E" and "rounded M E < 2 powi 1024"
  using to_double_cases[of s M E] assms by auto

lemma to_double_le:
  assumes "dyadic M E \<le> dyadic M' E'" and "to_double s' M' E' = Finite s' n' t'"
  shows "\<exists>n t. to_double s M E = Finite s n t \<and> dyadic n t \<le> dyadic n' t'"
proof -
  have "rounded M E \<le> rounded M' E'" by (rule rounded_mono[OF assms(1)])
  moreover note to_double_value(2,3)[OF assms(2)]
  ultimately have "rounded M E < 2 powi 1024" "rounded M E \<le> dyadic n' t'" by simp_all
  then show ?thesis using to_double_cases[of s M E] by auto
qed

lemma to_double_ge:
  assumes "dyadic M' E' \<le> dyadic M E" and "to_double s M E = Finite s n t"
    and "to_double s' M' E' = Finite s' n' t'"
  shows "dyadic n' t' \<le> dyadic n t"
  using rounded_mono[OF assms(1)] to_double_value(2)[OF assms(2)] to_double_value(2)[OF assms(3)]
  by simp

lemma align:
  assumes "x \<le> e"
  shows "real_of_int (a * 2 ^ nat (e - x)) * 2 powi x = real_of_int a * 2 powi e"
proof -
  have "(2::real) ^ nat (e - x) = 2 powi (e - x)" using assms by (simp add: power_int_def)
  then have "real_of_int (a * 2 ^ nat (e - x)) * 2 powi x = real_of_int a * (2 powi (e - x) * 2 powi x)"
    by simp
  also have "2 powi (e - x) * (2::real) powi x = 2 powi e"
    using p2_add[of "e - x" x] by simp
  finally show ?thesis .
qed

lemma js_le_Finite:
  "js_le (Finite s m e) (Finite s' m' e') \<longleftrightarrow> valof (Finite s m e) \<le> valof (Finite s' m' e')"
proof -
  define x where "x = min e e'"
  have x: "x \<le> e" "x \<le> e'" by (simp_all add: x_def)
  have "js_le (Finite s m e) (Finite s' m' e') \<longleftrightarrow>
        real_of_int (signed s m * 2 ^ nat (e - x)) \<le> real_of_int (signed s' m' * 2 ^ nat (e' - x))"
    unfolding js_le.simps x_def[symmetric] by (simp only: of_int_le_iff)
  also have "\<dots> \<longleftrightarrow> real_of_int (signed s m * 2 ^ nat (e - x)) * 2 powi x
                    \<le> real_of_int (signed s' m' * 2 ^ nat (e' - x)) * 2 powi x"
    by (rule mult_le_cancel_right_pos[symmetric]) simp
  finally show ?thesis
    unfolding align[OF x(1)] align[OF x(2)] by simp
qed

lemma js_lt_Finite:
  "js_lt (Finite s m e) (Finite s' m' e') \<longleftrightarrow> valof (Finite s m e) < valof (Finite s' m' e')"
proof -
  define x where "x = min e e'"
  have x: "x \<le> e" "x \<le> e'" by (simp_all add: x_def)
  have "js_lt (Finite s m e) (Finite s' m' e') \<longleftrightarrow>
        real_of_int (signed s m * 2 ^ nat (e - x)) < real_of_int (signed s' m' * 2 ^ nat (e' - x))"
    unfolding js_lt.simps x_def[symmetric] by (simp only: of_int_less_iff)
  also have "\<dots> \<longleftrightarrow> real_of_int (signed s m * 2 ^ nat (e - x)) * 2 powi x
                    < real_of_int (signed s' m' * 2 ^ nat (e' - x)) * 2 powi x"
    by (rule mult_less_cancel_right_pos[symmetric]) simp
  finally show ?thesis
    unfolding align[OF x(1)] align[OF x(2)] by simp
qed

declare valof.simps(1) [simp del]

lemma valof_pos [simp]: "valof (Finite False m e) = dyadic m e"
  by (simp add: valof.simps(1) signed_def dyadic_def)

lemma valof_neg [simp]: "valof (Finite True m e) = - dyadic m e"
  by (simp add: valof.simps(1) signed_def dyadic_def)

lemma valof_abs: "\<bar>valof (Finite s m e)\<bar> = dyadic m e"
  by (cases s) simp_all

lemma js_add_Finite:
  "\<exists>M x. dyadic M x = \<bar>valof (Finite s m e) + valof (Finite s' m' e')\<bar> \<and>
     js_add (Finite s m e) (Finite s' m' e') =
       (if M = 0 then Finite (s \<and> s') 0 (- 1074)
        else to_double (valof (Finite s m e) + valof (Finite s' m' e') < 0) M x)"
proof -
  define x where "x = min e e'"
  define i where "i = signed s m * 2 ^ nat (e - x) + signed s' m' * 2 ^ nat (e' - x)"
  have x: "x \<le> e" "x \<le> e'" by (simp_all add: x_def)
  have v: "real_of_int i * 2 powi x = valof (Finite s m e) + valof (Finite s' m' e')"
    unfolding i_def of_int_add distrib_right align[OF x(1)] align[OF x(2)] by (simp add: valof.simps(1))
  have "real_of_int i * 2 powi x < 0 * 2 powi x \<longleftrightarrow> real_of_int i < 0"
    by (rule mult_less_cancel_right_pos) simp
  then have neg: "i < 0 \<longleftrightarrow> valof (Finite s m e) + valof (Finite s' m' e') < 0"
    unfolding v by simp
  have "dyadic (nat \<bar>i\<bar>) x = \<bar>real_of_int i * 2 powi x\<bar>"
    by (simp add: dyadic_def abs_mult)
  then have d: "dyadic (nat \<bar>i\<bar>) x = \<bar>valof (Finite s m e) + valof (Finite s' m' e')\<bar>"
    unfolding v .
  have "js_add (Finite s m e) (Finite s' m' e') =
       (if nat \<bar>i\<bar> = 0 then Finite (s \<and> s') 0 (- 1074)
        else to_double (valof (Finite s m e) + valof (Finite s' m' e') < 0) (nat \<bar>i\<bar>) x)"
    unfolding neg[symmetric] by (simp add: Let_def x_def i_def)
  with d show ?thesis by blast
qed

lemma js_mul_Finite:
  "js_mul (Finite s m e) (Finite s' m' e') = to_double (s \<noteq> s') (m * m') (e + e')"
  "dyadic (m * m') (e + e') = dyadic m e * dyadic m' e'"
  by (simp_all add: dyadic_def p2_add)

text \<open>
  The jitter factor \<open>1 + (rnd * 0.2 - 0.1)\<close>, computed in floating point from a random
  Number in \<open>[0, 1)\<close>, lies between the Numbers \<open>0.9\<close> and \<open>1.1\<close>.
\<close>

lemma js_nat_0: "js_nat 0 = Finite False 0 (- 1074)"
  by (simp add: js_nat_def)

lemma js_nat_1: "js_nat 1 = Finite False 4503599627370496 (- 52)"
  by (simp add: double_simps)

lemma jitter_bounds:
  assumes "js_le (js_nat 0) r" and "js_lt r (js_nat 1)"
  shows "js_le nine_tenths (jitter_of r) \<and> js_le (jitter_of r) eleven_tenths"
proof -
  define C :: nat where "C = 7205759403792794"
  define d where "d = dyadic C (- 56)"
  have d55: "dyadic C (- 55) = 2 * d" by (simp add: d_def dyadic_def)
  have dpos: "0 < d" by (simp add: d_def C_def)
  have dsmall: "d < 1" by (simp add: d_def C_def dyadic_def)
  obtain s m e where r: "r = Finite s m e"
    using assms unfolding js_nat_0 js_nat_1 by (cases r) auto
  have v0: "0 \<le> valof (Finite s m e)"
    using assms(1) unfolding r js_nat_0 js_le_Finite by simp
  have v1: "valof (Finite s m e) < 1"
    using assms(2) unfolding r js_nat_1 js_lt_Finite by (simp add: dyadic_def)
  have s0: "s \<longrightarrow> m = 0"
  proof
    assume s
    then show "m = 0" using v0 by simp
  qed
  have m1: "dyadic m e \<le> 1"
    using v1 s0 by (cases s) simp_all
  (* the product with 0.2 *)
  have "dyadic (m * C) (e + (- 55)) = dyadic m e * dyadic C (- 55)"
    by (rule js_mul_Finite(2))
  also have "\<dots> \<le> 1 * dyadic C (- 55)"
    by (rule mult_right_mono[OF m1]) simp
  finally have p_le: "dyadic (m * C) (e + (- 55)) \<le> dyadic C (- 55)" by simp
  have tdC: "to_double s C (- 55) = Finite s C (- 55)"
    by (simp add: C_def double_simps)
  from to_double_le[OF p_le tdC, of s]
  obtain n1 t1 where p: "to_double s (m * C) (e + (- 55)) = Finite s n1 t1"
    and p1: "dyadic n1 t1 \<le> 2 * d"
    unfolding d55 by blast
  have mul: "js_mul r two_tenths = Finite s n1 t1"
    using p by (simp add: r two_tenths_def C_def)
  have n1s: "s \<longrightarrow> n1 = 0"
    using s0 p by auto
  have vp: "valof (Finite s n1 t1) = dyadic n1 t1"
    using n1s by (cases s) simp_all
  (* minus 0.1 *)
  from js_add_Finite[of s n1 t1 True C "- 56"]
  obtain M2 x2 where d2: "dyadic M2 x2 = \<bar>dyadic n1 t1 + - d\<bar>"
    and q: "js_add (Finite s n1 t1) (Finite True C (- 56)) =
        (if M2 = 0 then Finite (s \<and> True) 0 (- 1074)
         else to_double (dyadic n1 t1 + - d < 0) M2 x2)"
    unfolding vp valof_neg d_def[symmetric] by blast
  have d2le: "dyadic M2 x2 \<le> dyadic C (- 56)"
    unfolding d2 d_def[symmetric] using p1 dyadic_nonneg[of n1 t1] by linarith
  have "\<exists>s2 n2 t2. js_add (Finite s n1 t1) (Finite True C (- 56)) = Finite s2 n2 t2 \<and> dyadic n2 t2 \<le> d"
  proof (cases "M2 = 0")
    case True
    then show ?thesis using q dpos by (intro exI[of _ s] exI[of _ 0] exI[of _ "- 1074"]) simp
  next
    case False
    have "to_double (dyadic n1 t1 + - d < 0) C (- 56) = Finite (dyadic n1 t1 + - d < 0) C (- 56)"
      by (simp add: C_def double_simps)
    from to_double_le[OF d2le this, of "dyadic n1 t1 + - d < 0"] show ?thesis
      using q False unfolding d_def by auto
  qed
  then obtain s2 n2 t2 where sub': "js_add (Finite s n1 t1) (Finite True C (- 56)) = Finite s2 n2 t2"
    and q1: "dyadic n2 t2 \<le> d" by blast
  have sub: "js_sub (js_mul r two_tenths) one_tenth = Finite s2 n2 t2"
    using sub' by (simp add: mul js_sub_def one_tenth_def C_def)
  (* plus 1 *)
  define w where "w = 1 + valof (Finite s2 n2 t2)"
  have "\<bar>valof (Finite s2 n2 t2)\<bar> \<le> d" unfolding valof_abs by (rule q1)
  then have w: "1 - d \<le> w" "w \<le> 1 + d" unfolding w_def by linarith+
  have wpos: "0 < w" using w(1) dsmall by linarith
  have one: "valof (Finite False 4503599627370496 (- 52)) = 1" by (simp add: dyadic_def)
  from js_add_Finite[of False 4503599627370496 "- 52" s2 n2 t2]
  obtain M3 x3 where d3: "dyadic M3 x3 = \<bar>w\<bar>"
    and j: "js_add (Finite False 4503599627370496 (- 52)) (Finite s2 n2 t2) =
        (if M3 = 0 then Finite (False \<and> s2) 0 (- 1074) else to_double (w < 0) M3 x3)"
    unfolding one w_def[symmetric] by blast
  have d3': "dyadic M3 x3 = w" using d3 wpos by simp
  have M3: "M3 \<noteq> 0" using d3' wpos by (cases "M3 = 0") simp_all
  have jit: "jitter_of r = to_double False M3 x3"
    unfolding jitter_of_def sub js_nat_1 j using M3 wpos by simp
  have up: "dyadic M3 x3 \<le> dyadic (2 ^ 56 + C) (- 56)"
    unfolding d3' using w(2) by (simp add: d_def dyadic_def C_def)
  have lo: "dyadic (2 ^ 56 - C) (- 56) \<le> dyadic M3 x3"
    unfolding d3' using w(1) by (simp add: d_def dyadic_def C_def)
  have tdu: "to_double False (2 ^ 56 + C) (- 56) = Finite False 4953959590107546 (- 52)"
    by (simp add: C_def double_simps)
  have tdl: "to_double False (2 ^ 56 - C) (- 56) = Finite False 8106479329266893 (- 53)"
    by (simp add: C_def double_simps)
  from to_double_le[OF up tdu, of False]
  obtain n3 t3 where j3: "to_double False M3 x3 = Finite False n3 t3"
    and u3: "dyadic n3 t3 \<le> dyadic 4953959590107546 (- 52)" by blast
  have l3: "dyadic 8106479329266893 (- 53) \<le> dyadic n3 t3"
    by (rule to_double_ge[OF lo j3 tdl])
  show ?thesis
    unfolding jit j3 nine_tenths_def eleven_tenths_def js_le_Finite valof_pos
    using u3 l3 by simp
qed

text \<open>
  \<open>Math.min\<close> is at most its second argument when no argument is \<open>NaN\<close>; powers of two;
  the delay is not \<open>NaN\<close> and at most \<open>maxDelay\<close>. The decimal literals are within half
  a unit in the last place of the decimal fractions they are written as.
\<close>

lemma js_le_refl: "x \<noteq> NaN \<Longrightarrow> js_le x x"
  by (cases x) simp_all

lemma js_le_total: "x \<noteq> NaN \<Longrightarrow> y \<noteq> NaN \<Longrightarrow> \<not> js_lt y x \<Longrightarrow> js_le x y"
proof (cases x; cases y)
  fix s m e s' m' e'
  assume "x = Finite s m e" "y = Finite s' m' e'" "\<not> js_lt y x"
  then show "js_le x y" by (simp only: js_le_Finite js_lt_Finite not_less)
qed auto

lemma Math_min_le:
  assumes "x \<noteq> NaN" and "m \<noteq> NaN"
  shows "js_le (Math_min x m) m"
  using assms js_le_refl[of m] js_le_total[of x m] by (auto simp: Math_min_def)

lemma js_pow2_nonneg:
  assumes "0 \<le> z"
  shows "js_pow2 z = (if z \<le> 1023 then Finite False (2 ^ 52) (z - 52) else Infinite False)"
proof -
  have t: "ulp_exponent 1 z = z - 52" using assms by (simp add: ulp_exponent_def)
  have n: "significand 1 z = 2 ^ 52" unfolding significand_def t by (simp add: Let_def)
  show ?thesis unfolding js_pow2_def to_double_def t n by (simp add: Let_def)
qed

lemma js_pow2_value:
  assumes "0 \<le> z" and "z \<le> 1023"
  shows "valof (js_pow2 z) = 2 powi z"
  using assms p2_add[of 52 "z - 52"] by (simp add: js_pow2_nonneg dyadic_def)

lemma js_lt_zero:
  assumes "js_lt (js_nat 0) b"
  shows "(\<exists>m e. b = Finite False m e \<and> 0 < m) \<or> b = Infinite False"
proof (cases b)
  case (Finite s m e)
  have "0 < valof (Finite s m e)"
    using assms unfolding Finite js_nat_0 js_lt_Finite by simp
  then have "\<not> s \<and> 0 < m" by (cases s) simp_all
  then show ?thesis using Finite by simp
next
  case (Infinite s)
  then show ?thesis using assms by (simp add: js_nat_0)
next
  case NaN
  then show ?thesis using assms by (simp add: js_nat_0)
qed

lemma jitter_finite:
  assumes "js_le (js_nat 0) r" and "js_lt r (js_nat 1)"
  shows "\<exists>n t. jitter_of r = Finite False n t \<and> 0 < n"
proof -
  from jitter_bounds[OF assms]
  have lo: "js_le nine_tenths (jitter_of r)" and hi: "js_le (jitter_of r) eleven_tenths" by simp_all
  show ?thesis
  proof (cases "jitter_of r")
    case (Finite s n t)
    have "dyadic 8106479329266893 (- 53) \<le> valof (Finite s n t)"
      using lo unfolding Finite nine_tenths_def js_le_Finite by simp
    moreover have "0 < dyadic 8106479329266893 (- 53)" by simp
    ultimately have "0 < valof (Finite s n t)" by linarith
    then have "\<not> s \<and> 0 < n" by (cases s) simp_all
    then show ?thesis using Finite by simp
  next
    case (Infinite s)
    then show ?thesis using lo hi by (cases s) (simp_all add: nine_tenths_def eleven_tenths_def)
  next
    case NaN
    then show ?thesis using lo by (simp add: nine_tenths_def)
  qed
qed

lemma js_mul_positive_not_NaN:
  assumes "(\<exists>m e. x = Finite False m e \<and> 0 < m) \<or> x = Infinite False"
    and "(\<exists>m e. y = Finite False m e \<and> 0 < m) \<or> y = Infinite False"
  shows "js_mul x y \<noteq> NaN"
  using assms by auto

lemma js_mul_finite_not_NaN:
  assumes "x \<noteq> NaN" and "y = Finite s n t" and "0 < n"
  shows "js_mul x y \<noteq> NaN"
  using assms by (cases x) auto

lemma calculateDelay_formula:
  "calculateDelay attempt b m r =
     Math_min (js_mul (js_mul b (js_pow2 (int attempt - 1))) (jitter_of r)) m"
  by (simp add: calculateDelay_def jitter_of_def Let_def)

lemma calculateDelay_le:
  assumes "1 \<le> attempt" and "js_lt (js_nat 0) b" and "js_le b m"
    and "js_le (js_nat 0) r" and "js_lt r (js_nat 1)"
  shows "js_le (calculateDelay attempt b m r) m"
proof -
  have z: "0 \<le> int attempt - 1" using assms(1) by simp
  have p: "(\<exists>m e. js_pow2 (int attempt - 1) = Finite False m e \<and> 0 < m) \<or>
      js_pow2 (int attempt - 1) = Infinite False"
    unfolding js_pow2_nonneg[OF z] by simp
  have e: "js_mul b (js_pow2 (int attempt - 1)) \<noteq> NaN"
    by (rule js_mul_positive_not_NaN[OF js_lt_zero[OF assms(2)] p])
  from jitter_finite[OF assms(4,5)] obtain n t where j: "jitter_of r = Finite False n t" "0 < n"
    by blast
  have x: "js_mul (js_mul b (js_pow2 (int attempt - 1))) (jitter_of r) \<noteq> NaN"
    by (rule js_mul_finite_not_NaN[OF e j])
  have m: "m \<noteq> NaN" using assms(3) by (cases b; cases m) simp_all
  show ?thesis
    unfolding calculateDelay_formula by (rule Math_min_le[OF x m])
qed

lemma decimal_literals:
  "\<bar>valof one_tenth - 1 / 10\<bar> < 2 powi (- 57)"
  "\<bar>valof two_tenths - 2 / 10\<bar> < 2 powi (- 56)"
  "\<bar>valof nine_tenths - 9 / 10\<bar> < 2 powi (- 54)"
  "\<bar>valof eleven_tenths - 11 / 10\<bar> < 2 powi (- 53)"
  by (simp_all add: one_tenth_def two_tenths_def nine_tenths_def eleven_tenths_def dyadic_def)

section \<open>Properties of the retry executor\<close>

lemma invoked_append: "invoked (tr @ es) = invoked tr @ invoked es"
  by (induction tr rule: invoked.induct) auto

text \<open>
  The loop started at attempt \<open>a\<close>, when every attempt before \<open>k\<close> fails with a
  retryable error and attempt \<open>k\<close> fails with \<open>err\<close>: it stops at \<open>k\<close>, either because
  \<open>err\<close> is not retryable or because \<open>k\<close> is the last permitted attempt.
\<close>

lemma retry_loop_failure_at:
  assumes "a \<le> k" "k \<le> maxAttempts opts" "operation k = Inl err"
    "fails_retryably operation a k"
    "k < maxAttempts opts \<Longrightarrow> \<not> isRetryableError err"
  shows "\<exists>tr'. retry_loop operation opts rnd a lastError tr =
           (Inl (if k < maxAttempts opts
                 then wrapError err NETWORK [(''nonRetryable'', CBool True), (''attemptsMade'', CNum k)]
                 else throw_exhausted opts (Some err)), tr') \<and>
           invoked tr' = invoked tr @ [a..<Suc k]"
  using assms
proof (induction "k - a" arbitrary: a lastError tr)
  case 0
  then have [simp]: "a = k" by simp
  show ?case using 0
    by (subst retry_loop.simps) (auto simp: invoked_append)
next
  case (Suc n)
  then have ak: "a < k" by simp
  have "case operation a of Inl e \<Rightarrow> isRetryableError e | Inr _ \<Rightarrow> False"
    using Suc.prems(4) Suc.prems(1) ak unfolding fails_retryably_def by blast
  then obtain e where e: "operation a = Inl e" "isRetryableError e"
    by (cases "operation a") auto
  have fr: "fails_retryably operation (Suc a) k"
    using Suc.prems(4) by (auto simp: fails_retryably_def)
  have n: "n = k - Suc a" using Suc.hyps(2) by simp
  from Suc.hyps(1)[OF n _ Suc.prems(2,3) fr Suc.prems(5)] ak
  obtain tr' where "retry_loop operation opts rnd (Suc a) (Some e)
       (tr @ [Invoke a] @ (if onRetry opts
          then [Observe a (a + 1) (maxAttempts opts) (calculateDelay a (baseDelay opts) (maxDelay opts) (rnd a)) e]
          else []) @ [Sleep (calculateDelay a (baseDelay opts) (maxDelay opts) (rnd a))]) =
       (Inl (if k < maxAttempts opts
                 then wrapError err NETWORK [(''nonRetryable'', CBool True), (''attemptsMade'', CNum k)]
                 else throw_exhausted opts (Some err)), tr') \<and>
           invoked tr' = invoked (tr @ [Invoke a] @ (if onRetry opts
          then [Observe a (a + 1) (maxAttempts opts) (calculateDelay a (baseDelay opts) (maxDelay opts) (rnd a)) e]
          else []) @ [Sleep (calculateDelay a (baseDelay opts) (maxDelay opts) (rnd a))]) @ [Suc a..<Suc k]"
    by (metis Suc_leI)
  moreover have "[a..<Suc k] = a # [Suc a..<Suc k]"
    using ak by (simp add: upt_conv_Cons)
  ultimately show ?case using ak Suc.prems(2) e
    by (subst retry_loop.simps) (auto simp: invoked_append Let_def)
qed

text \<open>
  The events of the loop started at attempt \<open>a\<close>: every attempt before the last one,
  \<open>n\<close>, failed with a retryable error and is followed by the observer call and the
  sleep, with the delay that \<open>calculateDelay\<close> gives for that attempt.
\<close>

lemma retry_loop_trace:
  assumes "a \<le> maxAttempts opts"
  shows "\<exists>n. a \<le> n \<and> n \<le> maxAttempts opts \<and> fails_retryably operation a n \<and>
           snd (retry_loop operation opts rnd a lastError tr) =
             tr @ concat (map (retry_events operation opts rnd) [a..<n]) @ [Invoke n]"
  using assms
proof (induction "maxAttempts opts - a" arbitrary: a lastError tr)
  case 0
  then have a: "a = maxAttempts opts" by simp
  show ?case
    by (rule exI[of _ a], subst retry_loop.simps)
       (auto simp: a fails_retryably_def split: sum.splits)
next
  case (Suc k)
  then have lt: "a < maxAttempts opts" by simp
  show ?case
  proof (cases "operation a")
    case (Inr result)
    show ?thesis
      by (rule exI[of _ a], subst retry_loop.simps)
         (use lt Inr in \<open>auto simp: fails_retryably_def\<close>)
  next
    case (Inl error)
    show ?thesis
    proof (cases "isRetryableError error")
      case False
      show ?thesis
        by (rule exI[of _ a], subst retry_loop.simps)
           (use lt Inl False in \<open>auto simp: fails_retryably_def\<close>)
    next
      case True
      have k: "k = maxAttempts opts - Suc a" using Suc.hyps(2) by simp
      have le: "Suc a \<le> maxAttempts opts" using lt by simp
      from Suc.hyps(1)[OF k le, of "Some error" "tr @ retry_events operation opts rnd a"]
      obtain n where n: "Suc a \<le> n" "n \<le> maxAttempts opts" "fails_retryably operation (Suc a) n"
        "snd (retry_loop operation opts rnd (Suc a) (Some error) (tr @ retry_events operation opts rnd a)) =
           (tr @ retry_events operation opts rnd a) @
           concat (map (retry_events operation opts rnd) [Suc a..<n]) @ [Invoke n]"
        by blast
      have step: "retry_loop operation opts rnd a lastError tr =
          retry_loop operation opts rnd (Suc a) (Some error) (tr @ retry_events operation opts rnd a)"
        by (subst retry_loop.simps) (use lt Inl True in \<open>simp add: retry_events_def Let_def\<close>)
      have upt: "[a..<n] = a # [Suc a..<n]" using n(1) by (simp add: upt_conv_Cons)
      have fr: "fails_retryably operation a n"
        unfolding fails_retryably_def
      proof (intro allI impI)
        fix j assume j: "a \<le> j \<and> j < n"
        show "case operation j of Inl e \<Rightarrow> isRetryableError e | Inr _ \<Rightarrow> False"
        proof (cases "j = a")
          case True
          then show ?thesis using Inl \<open>isRetryableError error\<close> by simp
        next
          case False
          then have "Suc a \<le> j \<and> j < n" using j by simp
          then show ?thesis using n(3) unfolding fails_retryably_def by blast
        qed
      qed
      show ?thesis
        by (rule exI[of _ n]) (use n fr in \<open>simp add: step upt\<close>)
    qed
  qed
qed

lemmas error_simps =
  isRetryableError_def nonRetryable_set_def context_get_def code_truthy_def status_truthy_def
  retryableCodes_def retryableStatus_def wrapError_def ScrapingError_def plain_error_def

text \<open>
  C1, as stated, fails: a non-retryable failure (status 404) on the final permitted
  attempt (attempt 3 of 3, after two retryable failures) leaves the loop through the
  last-attempt check, which comes before the retryability check. The error raised
  carries \<open>totalAttempts\<close> and \<open>message\<close>, and no \<open>nonRetryable\<close>.
\<close>

theorem C1_counterexample:
  "\<not> isRetryableError err404 \<and>
   fst (executeWithRetry op_503_then_404 default_options mid_random) =
     Inl (ScrapingError ''Not Found'' NETWORK
            [(''totalAttempts'', CNum 3), (''message'', CStr ''Operation failed after 3 attempts'')]
            (Some err404)) \<and>
   context_get (ScrapingError ''Not Found'' NETWORK
            [(''totalAttempts'', CNum 3), (''message'', CStr ''Operation failed after 3 attempts'')]
            (Some err404)) ''nonRetryable'' = None"
  by (simp add: executeWithRetry_def retry_loop.simps op_503_then_404_def default_options_def
      err404_def err503_def error_simps throw_exhausted_def show_nat.simps digit_char_def Let_def)

text \<open>
  C1 (amended). When attempts \<open>1 .. k - 1\<close> fail with retryable errors and attempt \<open>k\<close>
  fails with an error for which \<open>isRetryableError\<close> is false, \<open>executeWithRetry\<close>
  invokes the operation exactly for the attempts \<open>1 .. k\<close> and then throws. If \<open>k\<close> is
  below \<open>maxAttempts\<close> it throws \<open>wrapError\<close> of the error with the context
  \<open>{nonRetryable: true, attemptsMade: k}\<close>: a new \<open>ScrapingError\<close> around the error with
  \<open>nonRetryable = true\<close> and \<open>attemptsMade = k\<close> when the error is not a \<open>ScrapingError\<close>
  already. If \<open>k = maxAttempts\<close> it throws what exhaustion throws, \<open>wrapError\<close> of the
  error with the context \<open>{totalAttempts: maxAttempts, message}\<close>: a new \<open>ScrapingError\<close>
  around the error with \<open>totalAttempts = maxAttempts\<close> and neither \<open>nonRetryable\<close> nor
  \<open>attemptsMade\<close> when the error is not a \<open>ScrapingError\<close> already. An error that is a
  \<open>ScrapingError\<close> already is thrown as it is, with its own context, in both cases.
\<close>

theorem C1_nonretryable_failure:
  assumes "1 \<le> k" and "k \<le> maxAttempts opts"
    and "fails_retryably operation 1 k"
    and "operation k = Inl err" and "\<not> isRetryableError err"
  shows "\<exists>w tr. executeWithRetry operation opts rnd = (Inl w, tr) \<and> invoked tr = [1..<Suc k] \<and>
           w = (if k < maxAttempts opts
                then wrapError err NETWORK [(''nonRetryable'', CBool True), (''attemptsMade'', CNum k)]
                else throw_exhausted opts (Some err)) \<and>
           (k < maxAttempts opts \<and> \<not> isScrapingError err \<longrightarrow>
              isScrapingError w \<and> originalError w = Some err \<and>
              context_get w ''nonRetryable'' = Some (CBool True) \<and>
              context_get w ''attemptsMade'' = Some (CNum k)) \<and>
           (k = maxAttempts opts \<and> \<not> isScrapingError err \<longrightarrow>
              isScrapingError w \<and> originalError w = Some err \<and>
              context_get w ''totalAttempts'' = Some (CNum (maxAttempts opts)) \<and>
              context_get w ''nonRetryable'' = None \<and>
              context_get w ''attemptsMade'' = None) \<and>
           (isScrapingError err \<longrightarrow> w = err)"
proof -
  from retry_loop_failure_at[OF assms(1,2,4,3), where rnd=rnd and lastError=None and tr="[]"] assms(5)
  obtain tr where tr: "retry_loop operation opts rnd 1 None [] =
      (Inl (if k < maxAttempts opts
            then wrapError err NETWORK [(''nonRetryable'', CBool True), (''attemptsMade'', CNum k)]
            else throw_exhausted opts (Some err)), tr)" "invoked tr = [1..<Suc k]"
    by auto
  show ?thesis
    unfolding executeWithRetry_def tr(1)
    using tr(2) by (auto simp: wrapError_def ScrapingError_def context_get_def throw_exhausted_def)
qed

text \<open>
  Witness for C1 (amended), under the default options (3 attempts): status 503 on
  attempt 1 and status 404 on attempt 2; status 503 on attempts 1 and 2 and status 404
  on attempt 3, the last one; and, with a single permitted attempt, a \<open>ScrapingError\<close>
  marked \<open>nonRetryable\<close>, which is thrown as it is.
\<close>

theorem C1_nonretryable_failure_witness:
  "(\<exists>tr. executeWithRetry op_503_404_early default_options mid_random =
      (Inl (ScrapingError ''Not Found'' NETWORK
              [(''nonRetryable'', CBool True), (''attemptsMade'', CNum 2)] (Some err404)), tr) \<and>
      invoked tr = [1, 2]) \<and>
   (\<exists>w tr. executeWithRetry op_503_then_404 default_options mid_random = (Inl w, tr) \<and>
      invoked tr = [1, 2, 3] \<and> originalError w = Some err404 \<and>
      context_get w ''totalAttempts'' = Some (CNum 3) \<and> context_get w ''nonRetryable'' = None) \<and>
   (\<exists>tr. executeWithRetry op_always_marked single_attempt mid_random = (Inl scraping_marked, tr) \<and>
      invoked tr = [1])"
proof -
  have h5: "\<not> isRetryableError err404" by (simp add: err404_def error_simps)
  have a: "\<exists>tr. executeWithRetry op_503_404_early default_options mid_random =
      (Inl (ScrapingError ''Not Found'' NETWORK
              [(''nonRetryable'', CBool True), (''attemptsMade'', CNum 2)] (Some err404)), tr) \<and>
      invoked tr = [1, 2]"
  proof -
    have h1: "(1::nat) \<le> 2" by simp
    have h2: "2 \<le> maxAttempts default_options" by (simp add: default_options_def)
    have h3: "fails_retryably op_503_404_early 1 2"
      by (simp add: fails_retryably_def op_503_404_early_def err503_def error_simps)
    have h4: "op_503_404_early 2 = Inl err404" by (simp add: op_503_404_early_def)
    have u: "[1..<Suc 2] = [1, 2]" by (simp add: upt_conv_Cons)
    show ?thesis
      using C1_nonretryable_failure[OF h1 h2 h3 h4 h5, of mid_random]
      unfolding u by (auto simp: default_options_def wrapError_def err404_def plain_error_def)
  qed
  have b: "\<exists>w tr. executeWithRetry op_503_then_404 default_options mid_random = (Inl w, tr) \<and>
      invoked tr = [1, 2, 3] \<and> originalError w = Some err404 \<and>
      context_get w ''totalAttempts'' = Some (CNum 3) \<and> context_get w ''nonRetryable'' = None"
  proof -
    have h1: "(1::nat) \<le> 3" by simp
    have h2: "3 \<le> maxAttempts default_options" by (simp add: default_options_def)
    have h3: "fails_retryably op_503_then_404 1 3"
      by (simp add: fails_retryably_def op_503_then_404_def err503_def error_simps)
    have h4: "op_503_then_404 3 = Inl err404" by (simp add: op_503_then_404_def)
    have u: "[1..<Suc 3] = [1, 2, 3]" by (simp add: upt_conv_Cons)
    have m: "maxAttempts default_options = 3" by (simp add: default_options_def)
    have n: "\<not> isScrapingError err404" by (simp add: err404_def plain_error_def)
    show ?thesis
      using C1_nonretryable_failure[OF h1 h2 h3 h4 h5, of mid_random] n
      unfolding u m by auto
  qed
  have c: "\<exists>tr. executeWithRetry op_always_marked single_attempt mid_random = (Inl scraping_marked, tr) \<and>
      invoked tr = [1]"
  proof -
    have h1: "(1::nat) \<le> 1" by simp
    have h2: "1 \<le> maxAttempts single_attempt" by (simp add: single_attempt_def default_options_def)
    have h3: "fails_retryably op_always_marked 1 1" by (simp add: fails_retryably_def)
    have h4: "op_always_marked 1 = Inl scraping_marked" by (simp add: op_always_marked_def)
    have h6: "\<not> isRetryableError scraping_marked" by (simp add: scraping_marked_def error_simps)
    have u: "[1..<Suc 1] = [1]" by (simp add: upt_conv_Cons)
    have n: "isScrapingError scraping_marked" by (simp add: scraping_marked_def ScrapingError_def)
    show ?thesis
      using C1_nonretryable_failure[OF h1 h2 h3 h4 h6, of mid_random] n
      unfolding u by auto
  qed
  from a b c show ?thesis by blast
qed

text \<open>
  C2, as stated, fails: an operation that always throws a retryable error that is a
  \<open>ScrapingError\<close> already (here one whose \<open>code\<close> is \<open>ETIMEDOUT\<close>) is invoked 3 times
  under the default options, and then the error itself is thrown, whose context has
  no \<open>totalAttempts\<close>.
\<close>

theorem C2_counterexample:
  "isRetryableError scraping_etimedout \<and>
   fst (executeWithRetry op_always_scraping default_options mid_random) = Inl scraping_etimedout \<and>
   invoked (snd (executeWithRetry op_always_scraping default_options mid_random)) = [1, 2, 3] \<and>
   context_get scraping_etimedout ''totalAttempts'' = None"
  by (simp add: executeWithRetry_def retry_loop.simps op_always_scraping_def default_options_def
      scraping_etimedout_def error_simps throw_exhausted_def Let_def)

text \<open>
  C2 (amended). For every \<open>N \<ge> 1\<close>, with \<open>maxAttempts = N\<close> and an operation that fails
  on every attempt \<open>1 .. N\<close> with a retryable error, \<open>executeWithRetry\<close> invokes the
  operation exactly \<open>N\<close> times, with the attempt numbers \<open>1 .. N\<close> in order, and then
  throws \<open>wrapError\<close> of the last error with the context \<open>{totalAttempts: N, message}\<close>:
  a new \<open>ScrapingError\<close> with \<open>totalAttempts = N\<close> around the last error when that is not
  a \<open>ScrapingError\<close> already, and the last error itself when it is.
\<close>

theorem C2_attempts_exhausted:
  assumes "1 \<le> N" and "maxAttempts opts = N"
    and "fails_retryably operation 1 (Suc N)"
    and "operation N = Inl err"
  shows "\<exists>w tr. executeWithRetry operation opts rnd = (Inl w, tr) \<and> invoked tr = [1..<Suc N] \<and>
           w = wrapError err NETWORK
                 [(''totalAttempts'', CNum N),
                  (''message'', CStr (''Operation failed after '' @ show_nat N @ '' attempts''))] \<and>
           (\<not> isScrapingError err \<longrightarrow>
              isScrapingError w \<and> originalError w = Some err \<and>
              context_get w ''totalAttempts'' = Some (CNum N)) \<and>
           (isScrapingError err \<longrightarrow> w = err)"
proof -
  have fr: "fails_retryably operation 1 N"
    using assms(3) by (simp add: fails_retryably_def)
  have le: "N \<le> maxAttempts opts" using assms(2) by simp
  from retry_loop_failure_at[OF assms(1) le assms(4) fr, where rnd=rnd and lastError=None and tr="[]"]
    assms(2)
  obtain tr where tr: "retry_loop operation opts rnd 1 None [] =
      (Inl (throw_exhausted opts (Some err)), tr)" "invoked tr = [1..<Suc N]"
    by auto
  show ?thesis
    unfolding executeWithRetry_def tr(1)
    using tr(2) assms(2)
    by (auto simp: wrapError_def ScrapingError_def context_get_def throw_exhausted_def)
qed

text \<open>Witness for C2 (amended): status 503 at every attempt, default options.\<close>

theorem C2_attempts_exhausted_witness:
  "\<exists>tr. executeWithRetry op_always_503 default_options mid_random =
      (Inl (ScrapingError ''Service Unavailable'' NETWORK
              [(''totalAttempts'', CNum 3),
               (''message'', CStr ''Operation failed after 3 attempts'')] (Some err503)), tr) \<and>
      invoked tr = [1, 2, 3]"
proof -
  have h1: "(1::nat) \<le> 3" by simp
  have h2: "maxAttempts default_options = 3" by (simp add: default_options_def)
  have h3: "fails_retryably op_always_503 1 (Suc 3)"
    by (simp add: fails_retryably_def op_always_503_def err503_def error_simps)
  have h4: "op_always_503 3 = Inl err503" by (simp add: op_always_503_def)
  have u: "[1..<Suc 3] = [1, 2, 3]" by (simp add: upt_conv_Cons)
  have s: "show_nat 3 = ''3''" by (simp add: show_nat.simps digit_char_def)
  show ?thesis
    using C2_attempts_exhausted[OF h1 h2 h3 h4, of mid_random]
    unfolding u s by (auto simp: wrapError_def err503_def plain_error_def)
qed

text \<open>
  C3. Take a run of \<open>executeWithRetry\<close> with at least one permitted attempt, a base
  delay above 0, a maximal delay not below the base delay, and random numbers in
  \<open>[0, 1)\<close>. Some attempt \<open>n\<close> is the last one; every attempt before it failed with a
  retryable error; and the events of the run are, for each attempt \<open>i\<close> before \<open>n\<close> in
  order, the invocation, the observer call (if an observer was given) with the delay
  \<open>calculateDelay i\<close>, and the sleep for that same delay, followed by the invocation of
  attempt \<open>n\<close>. For every attempt number \<open>i \<ge> 1\<close>, in the floating-point arithmetic of
  the code: the jitter factor lies between \<open>0.9\<close> and \<open>1.1\<close>; the delay is
  \<open>Math.min(baseDelay * 2 ** (i - 1) * jitter, maxDelay)\<close>; it is at most \<open>maxDelay\<close>; and
  \<open>2 ** (i - 1)\<close> is the exact power of two up to \<open>i = 1024\<close> and \<open>Infinity\<close> above.
\<close>

theorem C3_delay_formula:
  assumes "1 \<le> maxAttempts opts"
    and "js_lt (js_nat 0) (baseDelay opts)"
    and "js_le (baseDelay opts) (maxDelay opts)"
    and "\<forall>i. js_le (js_nat 0) (rnd i) \<and> js_lt (rnd i) (js_nat 1)"
  shows "(\<exists>n. 1 \<le> n \<and> n \<le> maxAttempts opts \<and> fails_retryably operation 1 n \<and>
            snd (executeWithRetry operation opts rnd) =
              concat (map (retry_events operation opts rnd) [1..<n]) @ [Invoke n]) \<and>
         (\<forall>i. 1 \<le> i \<longrightarrow>
            js_le nine_tenths (jitter_of (rnd i)) \<and> js_le (jitter_of (rnd i)) eleven_tenths \<and>
            calculateDelay i (baseDelay opts) (maxDelay opts) (rnd i) =
              Math_min (js_mul (js_mul (baseDelay opts) (js_pow2 (int i - 1))) (jitter_of (rnd i)))
                (maxDelay opts) \<and>
            js_le (calculateDelay i (baseDelay opts) (maxDelay opts) (rnd i)) (maxDelay opts) \<and>
            (i \<le> 1024 \<longrightarrow> valof (js_pow2 (int i - 1)) = 2 ^ (i - 1)) \<and>
            (1024 < i \<longrightarrow> js_pow2 (int i - 1) = Infinite False))"
proof (intro conjI allI impI)
  show "\<exists>n. 1 \<le> n \<and> n \<le> maxAttempts opts \<and> fails_retryably operation 1 n \<and>
            snd (executeWithRetry operation opts rnd) =
              concat (map (retry_events operation opts rnd) [1..<n]) @ [Invoke n]"
    using retry_loop_trace[OF assms(1), of operation rnd None "[]"]
    by (simp add: executeWithRetry_def)
next
  fix i :: nat
  assume i: "1 \<le> i"
  have r: "js_le (js_nat 0) (rnd i)" "js_lt (rnd i) (js_nat 1)" using assms(4) by simp_all
  show "js_le nine_tenths (jitter_of (rnd i))" "js_le (jitter_of (rnd i)) eleven_tenths"
    using jitter_bounds[OF r] by simp_all
  show "calculateDelay i (baseDelay opts) (maxDelay opts) (rnd i) =
      Math_min (js_mul (js_mul (baseDelay opts) (js_pow2 (int i - 1))) (jitter_of (rnd i)))
        (maxDelay opts)"
    by (rule calculateDelay_formula)
  show "js_le (calculateDelay i (baseDelay opts) (maxDelay opts) (rnd i)) (maxDelay opts)"
    by (rule calculateDelay_le[OF i assms(2,3) r])
  show "valof (js_pow2 (int i - 1)) = 2 ^ (i - 1)" if "i \<le> 1024"
  proof -
    have e: "int i - 1 = int (i - 1)" using i by simp
    have "valof (js_pow2 (int (i - 1))) = 2 powi (int (i - 1))"
      by (rule js_pow2_value) (use that in simp_all)
    then show ?thesis unfolding e power_int_of_nat .
  qed
  show "js_pow2 (int i - 1) = Infinite False" if "1024 < i"
    using that by (simp add: js_pow2_nonneg)
qed

text \<open>
  Witness for C3: status 503 at every attempt under the default options (base delay
  1000, maximal delay 30000, 3 attempts) and the random number 0.5 (jitter factor 1):
  the run sleeps 1000 after attempt 1 and 2000 after attempt 2. With the random number
  0.15 the delay after attempt 1 is the Number \<open>929.9999999999999\<close>; the delay after
  an attempt 6 would be capped at 30000.
\<close>

theorem C3_delay_formula_witness:
  "snd (executeWithRetry op_always_503 default_options mid_random) =
     [Invoke 1, Sleep (js_nat 1000), Invoke 2, Sleep (js_nat 2000), Invoke 3] \<and>
   js_le (calculateDelay 2 (js_nat 1000) (js_nat 30000) one_half) (js_nat 30000) \<and>
   jitter_of one_half = js_nat 1 \<and>
   calculateDelay 6 (js_nat 1000) (js_nat 30000) one_half = js_nat 30000 \<and>
   calculateDelay 1 (js_nat 1000) (js_nat 30000) (Finite False 5404319552844595 (- 55)) =
     Finite False 8180366510653439 (- 43)"
proof -
  have h1: "1 \<le> maxAttempts default_options" by (simp add: default_options_def)
  have h2: "js_lt (js_nat 0) (baseDelay default_options)"
    by (simp add: default_options_def double_simps)
  have h3: "js_le (baseDelay default_options) (maxDelay default_options)"
    by (simp add: default_options_def double_simps)
  have h4: "\<forall>i. js_le (js_nat 0) (mid_random i) \<and> js_lt (mid_random i) (js_nat 1)"
    by (simp add: mid_random_def one_half_def double_simps)
  have "(1::nat) \<le> 2" by simp
  with C3_delay_formula[OF h1 h2 h3 h4, of op_always_503]
  have "js_le (calculateDelay 2 (baseDelay default_options) (maxDelay default_options) (mid_random 2))
      (maxDelay default_options)"
    by blast
  then have b: "js_le (calculateDelay 2 (js_nat 1000) (js_nat 30000) one_half) (js_nat 30000)"
    by (simp add: default_options_def mid_random_def)
  have d1: "calculateDelay 1 (js_nat 1000) (js_nat 30000) one_half = js_nat 1000"
    by (simp add: calculateDelay_def one_half_def one_tenth_def two_tenths_def double_simps)
  have d2: "calculateDelay 2 (js_nat 1000) (js_nat 30000) one_half = js_nat 2000"
    by (simp add: calculateDelay_def one_half_def one_tenth_def two_tenths_def double_simps)
  have d1': "calculateDelay (Suc 0) (js_nat 1000) (js_nat 30000) one_half = js_nat 1000"
    using d1 by simp
  have d2': "calculateDelay (Suc (Suc 0)) (js_nat 1000) (js_nat 30000) one_half = js_nat 2000"
    using d2 by (simp add: numeral_2_eq_2)
  have r: "isRetryableError err503" by (simp add: err503_def error_simps)
  have a: "snd (executeWithRetry op_always_503 default_options mid_random) =
     [Invoke 1, Sleep (js_nat 1000), Invoke 2, Sleep (js_nat 2000), Invoke 3]"
    using r
    by (simp add: executeWithRetry_def retry_loop.simps op_always_503_def default_options_def
        mid_random_def d1' d2' Let_def)
  have c: "jitter_of one_half = js_nat 1"
    by (simp add: jitter_of_def one_half_def one_tenth_def two_tenths_def double_simps)
  have d: "calculateDelay 6 (js_nat 1000) (js_nat 30000) one_half = js_nat 30000"
    by (simp add: calculateDelay_def one_half_def one_tenth_def two_tenths_def double_simps)
  have e: "calculateDelay 1 (js_nat 1000) (js_nat 30000) (Finite False 5404319552844595 (- 55)) =
     Finite False 8180366510653439 (- 43)"
    by (simp add: calculateDelay_def one_tenth_def two_tenths_def double_simps)
  from a b c d e show ?thesis by blast
qed

text \<open>
  C4, as stated, fails: an error named \<open>TimeoutError\<close> (classified \<open>TIMEOUT\<close>) that also
  carries the status 404 is not retryable, because a truthy status decides alone.
\<close>

theorem C4_counterexample:
  "classifyError timeout404 = TIMEOUT \<and> \<not> nonRetryable_set timeout404 \<and>
   \<not> isRetryableError timeout404"
  by (simp add: classifyError_def timeout404_def error_simps)

text \<open>
  C4 (amended). \<open>isRetryableError\<close> is false whenever \<open>error.context.nonRetryable\<close> is
  truthy. Otherwise it is true if and only if the error carries one of the four
  transient network fault codes, or carries a truthy status that is one of 408, 429,
  500, 502, 503, 504, or carries no truthy status and is classified \<open>TIMEOUT\<close> (its name
  is \<open>TimeoutError\<close>). In particular a status of 429 alone is retryable and a status of
  404 alone is not.
\<close>

theorem C4_isRetryable:
  "(nonRetryable_set e \<longrightarrow> \<not> isRetryableError e) \<and>
   (\<not> nonRetryable_set e \<longrightarrow>
      (isRetryableError e \<longleftrightarrow>
         (code_truthy e \<and> the (err_code e) \<in> {''ETIMEDOUT'', ''ENOTFOUND'', ''ECONNRESET'', ''ECONNREFUSED''}) \<or>
         (status_truthy e \<and> the (err_status e) \<in> {408, 429, 500, 502, 503, 504}) \<or>
         (\<not> status_truthy e \<and> classifyError e = TIMEOUT))) \<and>
   (classifyError e = TIMEOUT \<longleftrightarrow> err_name e = ''TimeoutError'') \<and>
   isRetryableError (status_error 429) \<and> \<not> isRetryableError (status_error 404)"
proof -
  have t: "classifyError e = TIMEOUT \<longleftrightarrow> err_name e = ''TimeoutError''"
    by (simp add: classifyError_def TIMEOUT_def NETWORK_def RATE_LIMIT_def PARSE_def)
  show ?thesis
    unfolding t
    by (auto simp: isRetryableError_def retryableCodes_def retryableStatus_def status_error_def
        plain_error_def nonRetryable_set_def context_get_def code_truthy_def status_truthy_def)
qed

text \<open>
  Witness for C4 (amended): status 503 is retryable, status 404 is not, and neither is
  a \<open>TimeoutError\<close> with status 404.
\<close>

theorem C4_isRetryable_witness:
  "isRetryableError err503 \<and> \<not> isRetryableError err404 \<and> \<not> isRetryableError timeout404"
proof -
  have n: "\<not> nonRetryable_set err503" "\<not> nonRetryable_set err404" "\<not> nonRetryable_set timeout404"
    by (simp_all add: err503_def err404_def timeout404_def plain_error_def nonRetryable_set_def context_get_def)
  show ?thesis
    using C4_isRetryable[of err503] C4_isRetryable[of err404] C4_isRetryable[of timeout404] n
    by (simp add: err503_def err404_def timeout404_def plain_error_def code_truthy_def status_truthy_def)
qed

section \<open>Properties of the TOC deduplication pass\<close>

lemma toc_loop_closed: "toc_loop False tls seen res ls = toc_loop False [] seen res ls"
  by (induction ls arbitrary: res) auto

lemma toc_loop_items:
  "list_all isTocItem run \<Longrightarrow>
   toc_loop True tls seen res (run @ rest) = toc_loop True (tls @ run) seen res rest"
  by (induction run arbitrary: tls) auto

lemma toc_loop_open:
  "run \<noteq> [] \<Longrightarrow> list_all isTocItem run \<Longrightarrow>
   toc_loop False tls seen res (run @ rest) = toc_loop True run seen res rest"
  by (cases run) (auto simp: toc_loop_items[where tls="[_]", simplified])

text \<open>A whole block, from outside a block up to the line that ends it.\<close>

lemma toc_loop_block:
  assumes "run \<noteq> []" "list_all isTocItem run" "\<not> isTocItem l"
  shows "toc_loop False tls seen res (run @ l # rest) =
           (if \<not> seen \<and> length run < 30 \<and> length run > 2
            then toc_loop False [] True (res @ run @ [l]) rest
            else toc_loop False [] seen (res @ [l]) rest)"
  using assms by (simp add: toc_loop_open)

text \<open>Items up to the end of the input leave \<open>result\<close> as it is.\<close>

lemma toc_loop_trailing:
  assumes "list_all isTocItem run"
  shows "toc_loop b tls seen res run = res"
proof (cases run)
  case Nil then show ?thesis by simp
next
  case (Cons a as)
  show ?thesis
  proof (cases b)
    case True
    then show ?thesis using toc_loop_items[OF assms, of tls seen res "[]"] by simp
  next
    case False
    then show ?thesis using toc_loop_open[OF _ assms, of tls seen res "[]"] Cons by simp
  qed
qed

lemma toc_loop_step:
  "\<exists>t1 s1 r1. \<forall>rest. toc_loop b tls seen res (l # rest) = toc_loop (isTocItem l) t1 s1 r1 rest"
proof (cases "isTocItem l")
  case True
  show ?thesis
    by (rule exI[of _ "if b then tls @ [l] else [l]"], rule exI[of _ seen], rule exI[of _ res])
       (simp add: True)
next
  case False
  show ?thesis
    by (rule exI[of _ "if b then [] else tls"],
        rule exI[of _ "if b \<and> \<not> seen \<and> length tls < 30 \<and> length tls > 2 then True else seen"],
        rule exI[of _ "if b \<and> \<not> seen \<and> length tls < 30 \<and> length tls > 2
                       then res @ tls @ [l] else res @ [l]"])
       (auto simp: False)
qed

text \<open>The state of the loop after a prefix of the lines does not depend on what follows.\<close>

lemma toc_loop_prefix:
  "\<exists>tls' seen' res'. \<forall>suf. toc_loop b tls seen res (pre @ suf) =
       toc_loop (if pre = [] then b else isTocItem (last pre)) tls' seen' res' suf"
proof (induction pre arbitrary: b tls seen res)
  case Nil
  show ?case by auto
next
  case (Cons l pre)
  obtain t1 s1 r1 where
    step: "\<And>rest. toc_loop b tls seen res (l # rest) = toc_loop (isTocItem l) t1 s1 r1 rest"
    using toc_loop_step[of b tls seen res l] by blast
  obtain t2 s2 r2 where
    ih: "\<And>suf. toc_loop (isTocItem l) t1 s1 r1 (pre @ suf) =
           toc_loop (if pre = [] then isTocItem l else isTocItem (last pre)) t2 s2 r2 suf"
    using Cons.IH[of "isTocItem l" t1 s1 r1] by blast
  have "\<forall>suf. toc_loop b tls seen res ((l # pre) @ suf) =
       toc_loop (if l # pre = [] then b else isTocItem (last (l # pre))) t2 s2 r2 suf"
    using step ih by simp
  then show ?case by blast
qed

lemma toc_loop_after_prefix:
  assumes "pre = [] \<or> \<not> isTocItem (last pre)"
  shows "\<exists>seen' res'. \<forall>suf. toc_loop False [] False [] (pre @ suf) = toc_loop False [] seen' res' suf"
proof -
  obtain t s r where
    p: "\<And>suf. toc_loop False [] False [] (pre @ suf) =
           toc_loop (if pre = [] then False else isTocItem (last pre)) t s r suf"
    using toc_loop_prefix[of False "[]" False "[]" pre] by blast
  have "(if pre = [] then False else isTocItem (last pre)) = False"
    using assms by auto
  then have "\<forall>suf. toc_loop False [] False [] (pre @ suf) = toc_loop False [] s r suf"
    using p toc_loop_closed[of t s r] by simp
  then show ?thesis by blast
qed

lemma removeDuplicateTOC_lines:
  assumes "\<forall>l\<in>set ls. NL \<notin> set l"
  shows "removeDuplicateTOC (join_nl ls) = join_nl (toc_loop False [] False [] ls)"
proof (cases "ls = []")
  case True
  then show ?thesis
    by (simp add: removeDuplicateTOC_def isTocItem_def trim_def trimStart_def trimEnd_def
        re_test_def toc_pattern_def)
next
  case False
  then show ?thesis using assms by (simp add: removeDuplicateTOC_def split_join_nl)
qed

text \<open>
  C5 (defect in the code). A block is appended to the result only when a later line
  that is not a TOC item ends it, and nothing flushes a block that is still open at
  the end of the input. So on the document that is a heading, an empty line and a
  block of 3 TOC items, \<open>removeDuplicateTOC\<close> returns the heading and the empty line:
  the first and only TOC block is lost, where C5 has it retained verbatim. On the
  document with two identical 5-item blocks separated by body text it returns the
  first block in place and all other lines, without the second block, as C5 says.
\<close>

theorem C5_trailing_toc_lost:
  "removeDuplicateTOC doc_toc_at_end = join_nl [''# Guide'', ''''] \<and>
   removeDuplicateTOC doc_two_tocs =
     join_nl ([''# Guide''] @ toc_block5 @ [''Some body text.'', ''More body text.'', ''The end.''])"
  by code_simp

text \<open>
  C6, as stated, fails: a block of exactly one TOC item between two other lines does
  not pass through; it is deleted (and the later 3-item block still survives). A
  block of exactly 35 items between two other lines is deleted as well.
\<close>

theorem C6_counterexample:
  "isTocItem ''- [Top](#top)'' \<and> \<not> isTocItem ''intro'' \<and> \<not> isTocItem ''body'' \<and>
   removeDuplicateTOC doc_single_item = join_nl ([''intro'', ''body''] @ toc_block3 @ [''end'']) \<and>
   isTocItem ''- [Item](#item)'' \<and>
   removeDuplicateTOC doc_35_items = join_nl [''intro'', ''body'']"
  by code_simp

text \<open>
  C6 (amended). A block of TOC-item lines whose item count is at most 2 or at least 30
  (so a block of exactly 1 item, and one of exactly 35), ended by a line that is not a
  TOC item, is not adopted as the surviving TOC and is deleted in full: the pass gives
  the same output as on the text without the block. The block is the lines \<open>run\<close>,
  between the lines \<open>pre\<close>, which do not end with a TOC item, and the line \<open>l\<close>.
\<close>

theorem C6_out_of_range_block_deleted:
  assumes "split_nl text = pre @ run @ l # rest"
    and "pre = [] \<or> \<not> isTocItem (last pre)"
    and "run \<noteq> []" and "list_all isTocItem run" and "\<not> isTocItem l"
    and "length run \<le> 2 \<or> 30 \<le> length run"
  shows "removeDuplicateTOC text = removeDuplicateTOC (join_nl (pre @ l # rest))"
proof -
  obtain s r where
    p: "\<And>suf. toc_loop False [] False [] (pre @ suf) = toc_loop False [] s r suf"
    using toc_loop_after_prefix[OF assms(2)] by blast
  have "toc_loop False [] False [] (pre @ run @ l # rest) = toc_loop False [] s (r @ [l]) rest"
    using assms(6) by (auto simp: p toc_loop_block[OF assms(3,4,5)])
  moreover have "toc_loop False [] False [] (pre @ l # rest) = toc_loop False [] s (r @ [l]) rest"
    using assms(5) by (simp add: p)
  moreover have "\<forall>k\<in>set (pre @ l # rest). NL \<notin> set k"
    using split_nl_no_NL[of _ "text"] by (auto simp: assms(1))
  ultimately show ?thesis
    by (simp add: removeDuplicateTOC_lines) (simp add: removeDuplicateTOC_def assms(1))
qed

text \<open>
  Witness for C6 (amended): the document \<open>intro\<close>, one TOC item, \<open>body\<close>, a 3-item
  block, \<open>end\<close> gives the output of the same document without the single item, which
  is that document itself: the 3-item block is the one that survives.
\<close>

theorem C6_out_of_range_block_deleted_witness:
  "removeDuplicateTOC doc_single_item = join_nl ([''intro'', ''body''] @ toc_block3 @ [''end''])"
proof -
  have h1: "split_nl doc_single_item = [''intro''] @ [''- [Top](#top)''] @ ''body'' # (toc_block3 @ [''end''])"
    by code_simp
  have h2: "[''intro''] = [] \<or> \<not> isTocItem (last [''intro''])" by code_simp
  have h3: "[''- [Top](#top)''] \<noteq> []" by simp
  have h4: "list_all isTocItem [''- [Top](#top)'']" by code_simp
  have h5: "\<not> isTocItem ''body''" by code_simp
  have h6: "length [''- [Top](#top)''] \<le> 2 \<or> 30 \<le> length [''- [Top](#top)'']" by simp
  have e: "removeDuplicateTOC (join_nl ([''intro''] @ ''body'' # (toc_block3 @ [''end'']))) =
           join_nl ([''intro'', ''body''] @ toc_block3 @ [''end''])"
    by code_simp
  show ?thesis
    using C6_out_of_range_block_deleted[OF h1 h2 h3 h4 h5 h6] e by simp
qed

text \<open>
  C10. A run of TOC-item lines that reaches the end of the input is dropped from the
  output entirely, whatever its length and whether or not a TOC was seen before: the
  output is the output for the lines before the run. So the first TOC-shaped run of
  3 to 29 items is deleted too when the last line of the input is one of its items;
  it can survive only when a line that is not a TOC item follows it.
\<close>

theorem C10_trailing_run_dropped:
  assumes "split_nl text = pre @ run"
    and "list_all isTocItem run"
  shows "removeDuplicateTOC text = removeDuplicateTOC (join_nl pre)"
proof -
  obtain t s r where
    p: "\<And>suf. toc_loop False [] False [] (pre @ suf) =
           toc_loop (if pre = [] then False else isTocItem (last pre)) t s r suf"
    using toc_loop_prefix[of False "[]" False "[]" pre] by blast
  have "toc_loop False [] False [] (pre @ run) = r"
    by (simp add: p toc_loop_trailing[OF assms(2)])
  moreover have "toc_loop False [] False [] pre = r"
    using p[of "[]"] by simp
  moreover have "\<forall>k\<in>set pre. NL \<notin> set k"
    using split_nl_no_NL[of _ "text"] by (auto simp: assms(1))
  ultimately show ?thesis
    by (simp add: removeDuplicateTOC_lines) (simp add: removeDuplicateTOC_def assms(1))
qed

text \<open>
  Witness for C10: the heading, an empty line and a first block of 3 items at the end
  of the input; the output is the heading and the empty line.
\<close>

theorem C10_trailing_run_dropped_witness:
  "\<not> isTocItem '''' \<and> length toc_block3 = 3 \<and>
   removeDuplicateTOC doc_toc_at_end = join_nl [''# Guide'', '''']"
proof -
  have h1: "split_nl doc_toc_at_end = [''# Guide'', ''''] @ toc_block3" by code_simp
  have h2: "list_all isTocItem toc_block3" by code_simp
  have e: "removeDuplicateTOC (join_nl [''# Guide'', '''']) = join_nl [''# Guide'', '''']"
    by code_simp
  have n: "\<not> isTocItem '''' \<and> length toc_block3 = 3" by code_simp
  show ?thesis
    using C10_trailing_run_dropped[OF h1 h2] e n by simp
qed

section \<open>Properties of the navigation cleaner\<close>

declare nav_loop.simps(2) [simp del]

lemma str_includes_iff_sublist: "str_includes s p \<longleftrightarrow> sublist p s"
  by (induction s) (auto simp: sublist_Cons_right)

lemma str_includes_append: "str_includes a w \<Longrightarrow> str_includes (a @ b) w"
  unfolding str_includes_iff_sublist by (metis sublist_def append.assoc)

lemma toLowerCase_append: "toLowerCase (a @ b) = toLowerCase a @ toLowerCase b"
  by (simp add: toLowerCase_def)

lemma nav_loop_acc: "nav_loop m (c @ c') ls = c @ nav_loop m c' ls"
  by (induction ls arbitrary: m c') (simp_all add: nav_loop.simps(2) Let_def)

text \<open>One iteration either drops the line or appends it to \<open>cleaned\<close>.\<close>

lemma nav_loop_step:
  "\<exists>m1. nav_loop m [] (l # rest) = nav_loop m1 [] rest \<or>
        nav_loop m [] (l # rest) = l # nav_loop m1 [] rest"
proof -
  have a: "\<And>m. nav_loop m [l] rest = l # nav_loop m [] rest"
    using nav_loop_acc[of _ "[l]" "[]" rest] by simp
  show ?thesis
    by (simp add: nav_loop.simps(2) Let_def a) blast
qed

text \<open>
  The lines before a given point contribute a subsequence of themselves, and the
  loop goes on from there in some mode.
\<close>

lemma nav_loop_prefix:
  "\<exists>m' k. subseq k pre \<and> nav_loop m [] (pre @ suf) = k @ nav_loop m' [] suf"
proof (induction pre arbitrary: m)
  case Nil
  show ?case by (rule exI[of _ m], rule exI[of _ "[]"]) simp
next
  case (Cons l pre)
  obtain m1 where s: "nav_loop m [] (l # pre @ suf) = nav_loop m1 [] (pre @ suf) \<or>
        nav_loop m [] (l # pre @ suf) = l # nav_loop m1 [] (pre @ suf)"
    using nav_loop_step[of m l "pre @ suf"] by blast
  obtain m' k where k: "subseq k pre" "nav_loop m1 [] (pre @ suf) = k @ nav_loop m' [] suf"
    using Cons.IH[of m1] by blast
  from s show ?case
  proof
    assume "nav_loop m [] (l # pre @ suf) = nav_loop m1 [] (pre @ suf)"
    then have "subseq k (l # pre) \<and> nav_loop m [] ((l # pre) @ suf) = k @ nav_loop m' [] suf"
      using k by (simp add: list_emb_Cons)
    then show ?thesis by blast
  next
    assume "nav_loop m [] (l # pre @ suf) = l # nav_loop m1 [] (pre @ suf)"
    then have "subseq (l # k) (l # pre) \<and> nav_loop m [] ((l # pre) @ suf) = (l # k) @ nav_loop m' [] suf"
      using k by simp
    then show ?thesis by blast
  qed
qed

lemma nav_loop_menu_start:
  assumes "startsWithDash (trim d1)" "startsWithDash (trim d2)"
    and "\<not> has_keyword (trim d1)" "\<not> is_section_header (trim d1)"
    and "isMenuList (toLowerCase (join_nl (take 20 (d1 # d2 # rest))))"
  shows "nav_loop m c (d1 # d2 # rest) = nav_loop 1 c (d2 # rest)"
  using assms by (simp add: nav_loop.simps(2) Let_def)

lemma nav_loop_menu_item:
  assumes "startsWithDash (trim d)" "\<not> is_section_header (trim d)"
  shows "nav_loop 1 c (d # rest) = nav_loop 1 c rest"
  using assms by (simp add: nav_loop.simps(2) Let_def)

lemma nav_loop_menu_end:
  assumes "trim p \<noteq> []" "\<not> startsWithDash (trim p)" "\<not> has_keyword (trim p)"
    "\<not> is_section_header (trim p)" "\<not> is_nav_link (trim p)"
  shows "nav_loop 1 c (p # rest) = nav_loop 0 (c @ [p]) rest"
  using assms by (simp add: nav_loop.simps(2) Let_def)

text \<open>
  C7, as stated, fails: four contiguous dash lines whose lowercased concatenation
  contains \<open>logo\<close> and \<open>navigate to\<close>, followed by a plain line. The first dash line
  also contains the chrome phrase \<open>learn more\<close>, so the phrase rule drops it before
  the menu detection looks at it; the window of the second line no longer contains
  \<open>logo\<close>, no menu is detected, and the other three dash lines are retained.
\<close>

theorem C7_counterexample:
  "list_all is_dash_line menu_with_phrase \<and> length menu_with_phrase = 4 \<and>
   str_includes (toLowerCase (join_nl menu_with_phrase)) ''logo'' \<and>
   str_includes (toLowerCase (join_nl menu_with_phrase)) ''navigate to'' \<and>
   is_plain_line ''Welcome to the docs.'' \<and>
   removeNavigationMenus doc_menu_with_phrase =
     join_nl [''- Navigate to home'', ''- Docs'', ''- Blog'', ''Welcome to the docs.'']"
  by code_simp

text \<open>
  C7 (amended). For every input containing a run of 4 contiguous lines each starting
  with a dash whose lowercased concatenation contains both \<open>logo\<close> and \<open>navigate to\<close>,
  where the first of them contains no chrome phrase and none of them is matched by a
  menu section header pattern, followed by a plain line (not blank, not starting
  with a dash, matched by no drop rule): the scan drops all 4 dash lines, retains
  the plain line and continues after it in the normal mode. The retained lines are
  a subsequence \<open>k\<close> of the lines before the run, the plain line, and what the scan
  retains of the rest.
\<close>

theorem C7_menu_run_dropped:
  assumes "split_nl markdown = pre @ d1 # d2 # d3 # d4 # p # rest"
    and "list_all is_dash_line [d1, d2, d3, d4]"
    and "str_includes (toLowerCase (join_nl [d1, d2, d3, d4])) ''logo''"
    and "str_includes (toLowerCase (join_nl [d1, d2, d3, d4])) ''navigate to''"
    and "\<not> has_keyword (trim d1)"
    and "list_all no_section_header [d1, d2, d3, d4]"
    and "is_plain_line p"
  shows "\<exists>k. subseq k pre \<and>
             nav_loop 0 [] (split_nl markdown) = k @ p # nav_loop 0 [] rest \<and>
             removeNavigationMenus markdown =
               trim (collapse_blank_lines (join_nl (k @ p # nav_loop 0 [] rest)))"
proof -
  have dash: "startsWithDash (trim d1)" "startsWithDash (trim d2)" "startsWithDash (trim d3)"
    "startsWithDash (trim d4)"
    using assms(2) by (simp_all add: is_dash_line_def)
  have hdr: "\<not> is_section_header (trim d1)" "\<not> is_section_header (trim d2)"
    "\<not> is_section_header (trim d3)" "\<not> is_section_header (trim d4)"
    using assms(6) by (simp_all add: no_section_header_def)
  have win: "join_nl (take 20 (d1 # d2 # d3 # d4 # p # rest)) =
      join_nl [d1, d2, d3, d4] @ NL # join_nl (p # take 15 rest)"
    by simp
  have menu: "isMenuList (toLowerCase (join_nl (take 20 (d1 # d2 # d3 # d4 # p # rest))))"
    unfolding win toLowerCase_append isMenuList_def
    using str_includes_append[OF assms(3)] str_includes_append[OF assms(4)] by simp
  have plain: "trim p \<noteq> []" "\<not> startsWithDash (trim p)" "\<not> has_keyword (trim p)"
    "\<not> is_section_header (trim p)" "\<not> is_nav_link (trim p)"
    using assms(7) by (simp_all add: is_plain_line_def)
  have run: "nav_loop m c (d1 # d2 # d3 # d4 # p # rest) = nav_loop 0 (c @ [p]) rest" for m c
  proof -
    have "nav_loop m c (d1 # d2 # d3 # d4 # p # rest) = nav_loop 1 c (d2 # d3 # d4 # p # rest)"
      by (rule nav_loop_menu_start[OF dash(1,2) assms(5) hdr(1) menu])
    also have "\<dots> = nav_loop 1 c (d3 # d4 # p # rest)"
      by (rule nav_loop_menu_item[OF dash(2) hdr(2)])
    also have "\<dots> = nav_loop 1 c (d4 # p # rest)"
      by (rule nav_loop_menu_item[OF dash(3) hdr(3)])
    also have "\<dots> = nav_loop 1 c (p # rest)"
      by (rule nav_loop_menu_item[OF dash(4) hdr(4)])
    also have "\<dots> = nav_loop 0 (c @ [p]) rest"
      by (rule nav_loop_menu_end[OF plain])
    finally show ?thesis .
  qed
  obtain m' k where k: "subseq k pre"
    "nav_loop 0 [] (pre @ d1 # d2 # d3 # d4 # p # rest) = k @ nav_loop m' [] (d1 # d2 # d3 # d4 # p # rest)"
    using nav_loop_prefix[of pre 0 "d1 # d2 # d3 # d4 # p # rest"] by blast
  have "nav_loop 0 [] (split_nl markdown) = k @ p # nav_loop 0 [] rest"
    using k(2) run[of m' "[]"] nav_loop_acc[of 0 "[p]" "[]" rest] by (simp add: assms(1))
  then show ?thesis
    using k(1) by (auto simp: removeNavigationMenus_def Let_def)
qed

text \<open>
  Witness for C7 (amended): a title and an empty line, the four menu lines, a plain
  line and one more line. The title, the empty line and the two last lines remain.
\<close>

theorem C7_menu_run_dropped_witness:
  "removeNavigationMenus doc_menu = join_nl [''# Title'', '''', ''Welcome to the docs.'', ''Bye.'']"
proof -
  have h1: "split_nl doc_menu =
      [''# Title'', ''''] @ ''- Logo'' # ''- Navigate to home'' # ''- Docs'' # ''- Blog'' #
        ''Welcome to the docs.'' # [''Bye.'']"
    by code_simp
  have h2: "list_all is_dash_line [''- Logo'', ''- Navigate to home'', ''- Docs'', ''- Blog'']"
    by code_simp
  have h3: "str_includes (toLowerCase (join_nl [''- Logo'', ''- Navigate to home'', ''- Docs'', ''- Blog''])) ''logo''"
    by code_simp
  have h4: "str_includes (toLowerCase (join_nl [''- Logo'', ''- Navigate to home'', ''- Docs'', ''- Blog''])) ''navigate to''"
    by code_simp
  have h5: "\<not> has_keyword (trim ''- Logo'')" by code_simp
  have h6: "list_all no_section_header [''- Logo'', ''- Navigate to home'', ''- Docs'', ''- Blog'']"
    by code_simp
  have h7: "is_plain_line ''Welcome to the docs.''" by code_simp
  have e: "nav_loop 0 [] [''Bye.''] = [''Bye.'']" by code_simp
  obtain k where k: "subseq k [''# Title'', '''']"
    "nav_loop 0 [] (split_nl doc_menu) = k @ ''Welcome to the docs.'' # nav_loop 0 [] [''Bye.'']"
    "removeNavigationMenus doc_menu =
       trim (collapse_blank_lines (join_nl (k @ ''Welcome to the docs.'' # nav_loop 0 [] [''Bye.''])))"
    using C7_menu_run_dropped[OF h1 h2 h3 h4 h5 h6 h7] by blast
  have "nav_loop 0 [] (split_nl doc_menu) = [''# Title'', '''', ''Welcome to the docs.'', ''Bye.'']"
    by code_simp
  then have "k = [''# Title'', '''']" using k(2) e by simp
  then have "removeNavigationMenus doc_menu =
       trim (collapse_blank_lines (join_nl [''# Title'', '''', ''Welcome to the docs.'', ''Bye.'']))"
    using k(3) e by simp
  also have "\<dots> = join_nl [''# Title'', '''', ''Welcome to the docs.'', ''Bye.'']"
    by code_simp
  finally show ?thesis .
qed

section \<open>Properties of whitespace cleanup\<close>

text \<open>The pattern for a run of line feeds, and the replacement unfolded.\<close>

lemma rmatch_star_nl: "rmatch [Star (Lit NL)] s = Some ([], dropWhile (\<lambda>c. c = NL) s)"
  by (induction s) auto

lemma rmatch_blank_run:
  "rmatch blank_run_pattern s =
     (if prefix [NL, NL, NL] s then Some ([], dropWhile (\<lambda>c. c = NL) (drop 3 s)) else None)"
proof (cases "prefix [NL, NL, NL] s")
  case True
  then obtain z where "s = NL # NL # NL # z" by (auto simp: prefix_def)
  then show ?thesis
    by (simp add: blank_run_pattern_def rmatch_star_nl del: rmatch.simps(3))
next
  case False
  have "rmatch [One (Lit NL), One (Lit NL), One (Lit NL), Star (Lit NL)] s = None"
  proof (cases s)
    case Nil then show ?thesis by simp
  next
    case (Cons a s1)
    show ?thesis
    proof (cases s1)
      case Nil then show ?thesis using Cons by simp
    next
      case (Cons b s2)
      show ?thesis
      proof (cases s2)
        case Nil then show ?thesis using \<open>s = a # s1\<close> \<open>s1 = b # s2\<close> by simp
      next
        case (Cons c s3)
        then show ?thesis using \<open>s = a # s1\<close> \<open>s1 = b # s2\<close> False
          by (auto simp del: rmatch.simps(3))
      qed
    qed
  qed
  then show ?thesis using False by (simp add: blank_run_pattern_def)
qed

lemma collapse_Nil [simp]: "collapse_blank_lines [] = []"
  by (simp add: collapse_blank_lines_def rmatch_blank_run)

lemma collapse_match:
  assumes "prefix [NL, NL, NL] s"
  shows "collapse_blank_lines s = NL # NL # collapse_blank_lines (dropWhile (\<lambda>c. c = NL) s)"
proof -
  obtain z where s: "s = NL # NL # NL # z" using assms by (auto simp: prefix_def)
  have "length (dropWhile (\<lambda>c. c = NL) z) \<le> length z" by (rule length_dropWhile_le)
  then show ?thesis
    unfolding s collapse_blank_lines_def by (simp add: rmatch_blank_run)
qed

lemma collapse_nomatch:
  assumes "\<not> prefix [NL, NL, NL] (c # cs)"
  shows "collapse_blank_lines (c # cs) = c # collapse_blank_lines cs"
proof -
  have "rmatch blank_run_pattern (c # cs) = None"
    using assms by (simp only: rmatch_blank_run if_False)
  then show ?thesis by (simp add: collapse_blank_lines_def)
qed

lemma length_dropWhile_nl:
  "prefix [NL, NL, NL] s \<Longrightarrow> length (dropWhile (\<lambda>c. c = NL) s) < length s"
proof -
  assume "prefix [NL, NL, NL] s"
  then obtain z where s: "s = NL # NL # NL # z" by (auto simp: prefix_def)
  have "length (dropWhile (\<lambda>c. c = NL) z) \<le> length z" by (rule length_dropWhile_le)
  then show ?thesis unfolding s by simp
qed

lemma NL3_Cons: "sublist [NL, NL, NL] (c # z) \<longleftrightarrow> prefix [NL, NL, NL] (c # z) \<or> sublist [NL, NL, NL] z"
  by (simp add: sublist_Cons_right)

lemma dropWhile_nl_no_prefix: "\<not> prefix [NL] (dropWhile (\<lambda>c. c = NL) s)"
  by (induction s) auto

lemma collapse_props:
  "\<not> sublist [NL, NL, NL] (collapse_blank_lines s) \<and>
   (\<not> prefix [NL] s \<longrightarrow> \<not> prefix [NL] (collapse_blank_lines s)) \<and>
   (\<not> prefix [NL, NL] s \<longrightarrow> \<not> prefix [NL, NL] (collapse_blank_lines s))"
proof (induction s rule: length_induct)
  case (1 s)
  show ?case
  proof (cases "prefix [NL, NL, NL] s")
    case True
    define r where "r = dropWhile (\<lambda>c. c = NL) s"
    have "length r < length s" unfolding r_def by (rule length_dropWhile_nl[OF True])
    then have ih: "\<not> sublist [NL, NL, NL] (collapse_blank_lines r)"
      "\<not> prefix [NL] (collapse_blank_lines r)"
      using 1 dropWhile_nl_no_prefix[of s] unfolding r_def by blast+
    have eq: "collapse_blank_lines s = NL # NL # collapse_blank_lines r"
      unfolding r_def by (rule collapse_match[OF True])
    obtain z where s: "s = NL # NL # NL # z" using True by (auto simp: prefix_def)
    have a: "\<not> sublist [NL, NL, NL] (NL # NL # collapse_blank_lines r)"
      using ih by (cases "collapse_blank_lines r") (auto simp: NL3_Cons)
    show ?thesis unfolding eq using a unfolding s by simp
  next
    case False
    show ?thesis
    proof (cases s)
      case Nil
      then show ?thesis by simp
    next
      case (Cons c cs)
      have ih: "\<not> sublist [NL, NL, NL] (collapse_blank_lines cs)"
        "\<not> prefix [NL] cs \<longrightarrow> \<not> prefix [NL] (collapse_blank_lines cs)"
        "\<not> prefix [NL, NL] cs \<longrightarrow> \<not> prefix [NL, NL] (collapse_blank_lines cs)"
        using 1 Cons by auto
      have eq: "collapse_blank_lines (c # cs) = c # collapse_blank_lines cs"
        using False Cons by (simp add: collapse_nomatch)
      show ?thesis using ih False unfolding Cons eq by (auto simp: NL3_Cons)
    qed
  qed
qed

lemma collapse_id: "\<not> sublist [NL, NL, NL] s \<Longrightarrow> collapse_blank_lines s = s"
proof (induction s)
  case Nil
  show ?case by simp
next
  case (Cons c cs)
  then have "\<not> prefix [NL, NL, NL] (c # cs)" "\<not> sublist [NL, NL, NL] cs"
    by (auto simp: NL3_Cons)
  then show ?case using Cons.IH by (simp add: collapse_nomatch)
qed

lemma split_nl_dropWhile: "set (split_nl (dropWhile (\<lambda>c. c = NL) s)) \<subseteq> set (split_nl s)"
  by (induction s) auto

lemma set_hd_tl: "xs \<noteq> [] \<Longrightarrow> ys \<noteq> [] \<Longrightarrow> hd xs = hd ys \<Longrightarrow> set (tl xs) \<subseteq> set (tl ys) \<Longrightarrow> set xs \<subseteq> set ys"
  by (cases xs; cases ys) auto

lemma collapse_lines:
  "hd (split_nl (collapse_blank_lines s)) = hd (split_nl s) \<and>
   set (tl (split_nl (collapse_blank_lines s))) \<subseteq> set (tl (split_nl s))"
proof (induction s rule: length_induct)
  case (1 s)
  show ?case
  proof (cases "prefix [NL, NL, NL] s")
    case True
    define r where "r = dropWhile (\<lambda>c. c = NL) s"
    have "length r < length s" unfolding r_def by (rule length_dropWhile_nl[OF True])
    then have ih: "hd (split_nl (collapse_blank_lines r)) = hd (split_nl r)"
      "set (tl (split_nl (collapse_blank_lines r))) \<subseteq> set (tl (split_nl r))"
      using 1[rule_format, of r] by simp_all
    have sub: "set (split_nl (collapse_blank_lines r)) \<subseteq> set (split_nl r)"
      by (rule set_hd_tl[OF split_nl_nonempty split_nl_nonempty ih])
    obtain z where s: "s = NL # NL # NL # z" using True by (auto simp: prefix_def)
    have r: "r = dropWhile (\<lambda>c. c = NL) z" unfolding r_def s by simp
    have rz: "set (split_nl r) \<subseteq> set (split_nl z)" unfolding r by (rule split_nl_dropWhile)
    have eq: "collapse_blank_lines s = NL # NL # collapse_blank_lines r"
      unfolding r_def by (rule collapse_match[OF True])
    have l1: "split_nl (NL # NL # collapse_blank_lines r) = [] # [] # split_nl (collapse_blank_lines r)"
      by simp
    have l2: "split_nl (NL # NL # NL # z) = [] # [] # [] # split_nl z"
      by simp
    show ?thesis unfolding eq l1 unfolding s l2 using sub rz by auto
  next
    case False
    show ?thesis
    proof (cases s)
      case Nil
      then show ?thesis by simp
    next
      case (Cons c cs)
      have ih: "hd (split_nl (collapse_blank_lines cs)) = hd (split_nl cs)"
        "set (tl (split_nl (collapse_blank_lines cs))) \<subseteq> set (tl (split_nl cs))"
        using 1[rule_format, of cs] Cons by simp_all
      have sub: "set (split_nl (collapse_blank_lines cs)) \<subseteq> set (split_nl cs)"
        by (rule set_hd_tl[OF split_nl_nonempty split_nl_nonempty ih])
      have eq: "collapse_blank_lines (c # cs) = c # collapse_blank_lines cs"
        using False Cons by (simp add: collapse_nomatch)
      show ?thesis
      proof (cases "c = NL")
        case True
        have l1: "split_nl (NL # collapse_blank_lines cs) = [] # split_nl (collapse_blank_lines cs)"
          "split_nl (NL # cs) = [] # split_nl cs"
          by simp_all
        show ?thesis unfolding Cons eq unfolding True l1 using sub by simp
      next
        case False
        show ?thesis unfolding Cons eq
          unfolding split_nl_not_NL[OF False] using ih by simp
      qed
    qed
  qed
qed

lemma collapse_lines_subset: "set (split_nl (collapse_blank_lines s)) \<subseteq> set (split_nl s)"
  by (rule set_hd_tl[OF split_nl_nonempty split_nl_nonempty
        conjunct1[OF collapse_lines] conjunct2[OF collapse_lines]])

text \<open>Trimming, and consecutive blank lines in terms of line feeds.\<close>

lemma is_space_NL [simp]: "is_space NL"
  by (simp add: is_space_def)

lemma trimEnd_empty_iff: "trimEnd l = [] \<longleftrightarrow> (\<forall>c\<in>set l. is_space c)"
  by (simp add: trimEnd_def)

lemma set_trimEnd: "set (trimEnd l) \<subseteq> set l"
  unfolding trimEnd_def using set_dropWhileD[of _ is_space "rev l"] by auto

lemma trimStart_hd: "trimStart s \<noteq> [] \<Longrightarrow> \<not> is_space (hd (trimStart s))"
  unfolding trimStart_def by (rule hd_dropWhile)

lemma trimEnd_last: "trimEnd s \<noteq> [] \<Longrightarrow> \<not> is_space (last (trimEnd s))"
  unfolding trimEnd_def using hd_dropWhile[of is_space "rev s"] by (simp add: last_rev)

lemma trimEnd_snoc: "trimEnd (s @ [c]) = (if is_space c then trimEnd s else s @ [c])"
  by (simp add: trimEnd_def)

lemma trimEnd_hd: "s \<noteq> [] \<Longrightarrow> \<not> is_space (hd s) \<Longrightarrow> trimEnd s \<noteq> [] \<and> hd (trimEnd s) = hd s"
proof (induction s rule: rev_induct)
  case Nil
  then show ?case by simp
next
  case (snoc c s)
  show ?case
  proof (cases "s = []")
    case True
    then show ?thesis using snoc.prems by (simp add: trimEnd_def)
  next
    case False
    then show ?thesis using snoc by (simp add: trimEnd_snoc)
  qed
qed

lemma trim_ends:
  "trim s = [] \<or> (\<not> is_space (hd (trim s)) \<and> \<not> is_space (last (trim s)))"
proof (cases "trimStart s = []")
  case True
  then show ?thesis by (simp add: trim_def trimEnd_def)
next
  case False
  then have "trimEnd (trimStart s) \<noteq> [] \<and> hd (trimEnd (trimStart s)) = hd (trimStart s)"
    using trimEnd_hd trimStart_hd by blast
  then show ?thesis
    using trimStart_hd[OF False] trimEnd_last[of "trimStart s"] by (simp add: trim_def)
qed

lemma sublist_trimStart: "sublist (trimStart s) s"
  unfolding trimStart_def by (metis sublist_append_leftI takeWhile_dropWhile_id)

lemma sublist_trimEnd: "sublist (trimEnd s) s"
proof -
  have "rev s = takeWhile is_space (rev s) @ dropWhile is_space (rev s)" by simp
  then have "s = rev (dropWhile is_space (rev s)) @ rev (takeWhile is_space (rev s))"
    by (metis rev_append rev_rev_ident)
  then show ?thesis unfolding trimEnd_def by (metis sublist_append_rightI)
qed

lemma sublist_trim: "sublist (trim s) s"
  unfolding trim_def using sublist_trimEnd sublist_trimStart sublist_order.order.trans by blast

lemma consecutive_blank_Cons_nonempty:
  "a \<noteq> [] \<Longrightarrow> consecutive_blank (a # ls) = consecutive_blank ls"
  by (cases ls) auto

lemma consecutive_blank_tl_lines:
  "consecutive_blank (tl (split_nl t)) \<Longrightarrow> sublist [NL, NL, NL] t \<or> suffix [NL] t"
proof (induction t)
  case Nil
  then show ?case by simp
next
  case (Cons c cs)
  show ?case
  proof (cases "c = NL")
    case False
    then have "consecutive_blank (tl (split_nl cs))"
      using Cons.prems by (simp add: split_nl_not_NL)
    then show ?thesis using Cons.IH by (auto simp: sublist_Cons_right suffix_ConsI)
  next
    case True
    then have cb: "consecutive_blank (split_nl cs)" using Cons.prems by simp
    show ?thesis
    proof (cases cs)
      case Nil
      then show ?thesis using cb by simp
    next
      case (Cons d ds)
      show ?thesis
      proof (cases "d = NL")
        case False
        then have "consecutive_blank (tl (split_nl cs))"
          using cb Cons by (simp add: split_nl_not_NL consecutive_blank_Cons_nonempty)
        then show ?thesis using Cons.IH by (auto simp: sublist_Cons_right suffix_ConsI)
      next
        case dNL: True
        show ?thesis
        proof (cases ds)
          case Nil
          then show ?thesis using True dNL Cons by (simp add: suffix_def)
        next
          case (Cons e es)
          show ?thesis
          proof (cases "e = NL")
            case True
            then show ?thesis using \<open>c = NL\<close> dNL \<open>cs = d # ds\<close> Cons
              by (simp add: sublist_Cons_right)
          next
            case False
            then have "hd (split_nl ds) \<noteq> []" using Cons by (simp add: split_nl_not_NL)
            then have "consecutive_blank (split_nl ds)"
              using cb \<open>cs = d # ds\<close> dNL by (cases "split_nl ds") auto
            then have "consecutive_blank (tl (split_nl cs))"
              using \<open>cs = d # ds\<close> dNL by simp
            then show ?thesis using Cons.IH by (auto simp: sublist_Cons_right suffix_ConsI)
          qed
        qed
      qed
    qed
  qed
qed

lemma consecutive_blank_lines:
  assumes "consecutive_blank (split_nl t)"
  shows "prefix [NL] t \<or> sublist [NL, NL, NL] t \<or> suffix [NL] t"
proof (cases t)
  case Nil
  then show ?thesis using assms by simp
next
  case (Cons c cs)
  show ?thesis
  proof (cases "c = NL")
    case True
    then show ?thesis using Cons by simp
  next
    case False
    then have "consecutive_blank (tl (split_nl t))"
      using assms Cons by (simp add: split_nl_not_NL consecutive_blank_Cons_nonempty)
    then show ?thesis using consecutive_blank_tl_lines by blast
  qed
qed

lemma consecutive_blank_trimEnd:
  "\<forall>l\<in>set ls. \<not> whitespace_only l \<Longrightarrow> consecutive_blank (map trimEnd ls) \<Longrightarrow> consecutive_blank ls"
proof (induction ls rule: consecutive_blank.induct)
  case (1 a b rest)
  then show ?case by (auto simp: whitespace_only_def)
qed simp_all

lemma postProcessMarkdown_cleanWhitespace:
  "postProcessMarkdown markdown options = cleanWhitespace (before_cleanWhitespace markdown options)"
  by (simp add: postProcessMarkdown_def before_cleanWhitespace_def Let_def)

lemma removeNavigationMenus_props:
  "\<not> sublist [NL, NL, NL] (removeNavigationMenus x) \<and>
   \<not> prefix [NL] (removeNavigationMenus x) \<and> \<not> suffix [NL] (removeNavigationMenus x)"
proof -
  define y where "y = collapse_blank_lines (join_nl (nav_loop 0 [] (split_nl x)))"
  have w: "removeNavigationMenus x = trim y"
    by (simp add: removeNavigationMenus_def Let_def y_def)
  have "\<not> sublist [NL, NL, NL] y" unfolding y_def using collapse_props by blast
  then have a: "\<not> sublist [NL, NL, NL] (trim y)"
    using sublist_trim[of y] sublist_order.order.trans by blast
  have b: "\<not> prefix [NL] (trim y) \<and> \<not> suffix [NL] (trim y)"
    using trim_ends[of y] by (auto simp: prefix_def suffix_def)
  show ?thesis unfolding w using a b by simp
qed

lemma split_nl_cleanWhitespace:
  assumes "\<not> sublist [NL, NL, NL] w"
  shows "split_nl (cleanWhitespace w) = map trimEnd (split_nl w)"
proof -
  have "\<forall>l\<in>set (map trimEnd (split_nl w)). NL \<notin> set l"
    using split_nl_no_NL[of _ w] set_trimEnd by fastforce
  then show ?thesis
    by (simp add: cleanWhitespace_def Let_def collapse_id[OF assms] split_join_nl)
qed




section \<open>Idempotence on inert text\<close>

text \<open>Patterns that start with \<open><\<close> match nowhere in a text without \<open><\<close>.\<close>

lemma lower_char_lt: "lower_char x = CHR ''<'' \<longleftrightarrow> x = CHR ''<''"
proof
  assume a: "lower_char x = CHR ''<''"
  show "x = CHR ''<''"
  proof (rule ccontr)
    assume n: "x \<noteq> CHR ''<''"
    define k where "k = (of_char x :: nat)"
    have up: "(65 \<le> k \<and> k \<le> 90) \<or> (192 \<le> k \<and> k \<le> 222 \<and> k \<noteq> 215)"
      using a n unfolding lower_char_def Let_def k_def by (auto split: if_splits)
    then have "lower_char x = char_of (k + 32)"
      unfolding lower_char_def Let_def k_def by simp
    then have "(of_char (char_of (k + 32)) :: nat) = of_char (CHR ''<'')" using a by simp
    then have "(k + 32) mod 256 = 60" by simp
    then show False using up by auto
  qed
next
  assume "x = CHR ''<''"
  then show "lower_char x = CHR ''<''" by (simp add: lower_char_def)
qed

lemma in_class_lt: "in_class (LitCI CHR ''<'') x \<longleftrightarrow> x = CHR ''<''"
  using lower_char_lt[of x] lower_char_lt[of "CHR ''<''"] by simp

lemma rmatch_lt_none:
  assumes "s = [] \<or> hd s \<noteq> CHR ''<''"
  shows "rmatch (One (Lit CHR ''<'') # as) s = None" "rmatch (One (LitCI CHR ''<'') # as) s = None"
  using assms by (cases s; simp add: in_class_lt del: in_class.simps(2))+

lemma replace_all_no_match:
  assumes "\<And>n. rmatch p (drop n s) = None"
  shows "replace_all p f s = s"
  using assms
proof (induction s)
  case Nil
  then show ?case using Nil[of 0] by simp
next
  case (Cons c cs)
  have "rmatch p (c # cs) = None" using Cons.prems[of 0] by simp
  moreover have "\<And>n. rmatch p (drop n cs) = None" using Cons.prems[of "Suc _"] by simp
  ultimately show ?case using Cons.IH by simp
qed

lemma drop_no_lt: "CHR ''<'' \<notin> set s \<Longrightarrow> drop n s = [] \<or> hd (drop n s) \<noteq> CHR ''<''"
  by (metis hd_in_set in_set_dropD)

lemma replace_all_no_lt:
  assumes "CHR ''<'' \<notin> set s"
  shows "replace_all (One (Lit CHR ''<'') # as) f s = s" "replace_all (One (LitCI CHR ''<'') # as) f s = s"
  using rmatch_lt_none[OF drop_no_lt[OF assms]] by (simp_all add: replace_all_no_match)

lemma stripRemainingHtml_no_lt:
  assumes "CHR ''<'' \<notin> set s"
  shows "stripRemainingHtml s = s"
  using assms
  by (simp add: stripRemainingHtml_def tagsToRemove_def selfClosingTags_def remove_all_def
      element_pattern_def other_tag_pattern_def lit_def lit_ci_def Let_def replace_all_no_lt)

lemma rmatch_description_none:
  assumes "\<not> prefix [NL, CHR '':''] s"
  shows "rmatch empty_description_pattern s = None"
proof (cases s)
  case Nil then show ?thesis by (simp add: empty_description_pattern_def)
next
  case (Cons a s1)
  show ?thesis
  proof (cases s1)
    case Nil then show ?thesis using Cons by (simp add: empty_description_pattern_def)
  next
    case (Cons b s2)
    then show ?thesis using \<open>s = a # s1\<close> assms
      by (auto simp: empty_description_pattern_def simp del: rmatch.simps(3))
  qed
qed

lemma replace_all_description:
  assumes "\<not> sublist [NL, CHR '':''] s"
  shows "replace_all empty_description_pattern f s = s"
proof (rule replace_all_no_match)
  fix n
  have "sublist (drop n s) s" by (metis append_take_drop_id sublist_append_leftI)
  then have "\<not> prefix [NL, CHR '':''] (drop n s)"
    using assms prefix_imp_sublist sublist_order.order.trans by blast
  then show "rmatch empty_description_pattern (drop n s) = None"
    by (rule rmatch_description_none)
qed

lemma convertDefinitionLists_inert:
  assumes "CHR ''<'' \<notin> set s" "\<not> sublist [NL, CHR '':''] s"
  shows "convertDefinitionLists s = s"
  using assms
  by (simp add: convertDefinitionLists_def dt_dd_pattern_def dt_pattern_def dd_pattern_def
      dl_pattern_def lit_def lit_ci_def Let_def replace_all_no_lt replace_all_description)

text \<open>
  Menu-shaped content: the words looked for hold no line feed, so each one found in a
  joined text lies within one line.
\<close>

lemma lower_char_NL [simp]: "lower_char NL = NL"
  by (simp add: lower_char_def NL_def)

lemma toLowerCase_join: "toLowerCase (join_nl ls) = join_nl (map toLowerCase ls)"
  by (induction ls rule: join_nl.induct) (simp_all add: toLowerCase_def)

lemma sublist_toLowerCase: "sublist a b \<Longrightarrow> sublist (toLowerCase a) (toLowerCase b)"
  unfolding toLowerCase_def by (rule map_mono_sublist)

lemma sublist_line_join: "l \<in> set ls \<Longrightarrow> sublist l (join_nl ls)"
proof (induction ls rule: join_nl.induct)
  case 1
  then show ?case by simp
next
  case (2 k)
  then show ?case by simp
next
  case (3 k m ms)
  show ?case
  proof (cases "l = k")
    case True
    then show ?thesis by simp
  next
    case False
    then have "sublist l (join_nl (m # ms))" using 3 by simp
    then have "sublist l (NL # join_nl (m # ms))" by (simp add: sublist_Cons_right)
    then show ?thesis by (simp add: sublist_append)
  qed
qed

lemma sublist_join_line:
  assumes "sublist w (join_nl ls)" "NL \<notin> set w" "w \<noteq> []"
  shows "\<exists>x\<in>set ls. sublist w x"
  using assms(1)
proof (induction ls rule: join_nl.induct)
  case 1
  then show ?case using assms(3) by simp
next
  case (2 k)
  then show ?case by simp
next
  case (3 k m ms)
  have "sublist w (k @ NL # join_nl (m # ms))" using 3(2) by simp
  then consider "sublist w k" | "sublist w (NL # join_nl (m # ms))"
    | w1 w2 where "w = w1 @ w2" "suffix w1 k" "prefix w2 (NL # join_nl (m # ms))"
    unfolding sublist_append by blast
  then show ?case
  proof cases
    case 1
    then show ?thesis by auto
  next
    case 2
    then have "prefix w (NL # join_nl (m # ms)) \<or> sublist w (join_nl (m # ms))"
      by (simp add: sublist_Cons_right)
    moreover have "\<not> prefix w (NL # join_nl (m # ms))"
      using assms(2,3) by (cases w) auto
    ultimately show ?thesis using 3(1) by auto
  next
    case 3
    show ?thesis
    proof (cases "w2 = []")
      case True
      then have "sublist w k" using 3 by auto
      then show ?thesis by auto
    next
      case False
      then have "hd w2 = NL" using 3(3) by (cases w2) auto
      then have "NL \<in> set w" using False 3(1) by (cases w2) auto
      then show ?thesis using assms(2) by simp
    qed
  qed
qed

lemma join_nl_append:
  "xs \<noteq> [] \<Longrightarrow> ys \<noteq> [] \<Longrightarrow> join_nl (xs @ ys) = join_nl xs @ NL # join_nl ys"
  by (induction xs rule: join_nl.induct) (simp_all add: join_nl_Cons)

lemma sublist_join_suffix: "sublist (join_nl suf) (join_nl (pre @ suf))"
proof (cases "pre = [] \<or> suf = []")
  case True
  then show ?thesis by auto
next
  case False
  then have "join_nl (pre @ suf) = (join_nl pre @ [NL]) @ join_nl suf"
    by (simp add: join_nl_append)
  then show ?thesis by (metis sublist_append_leftI)
qed

lemma sublist_join_prefix: "sublist (join_nl pre) (join_nl (pre @ suf))"
proof (cases "pre = [] \<or> suf = []")
  case True
  then show ?thesis by auto
next
  case False
  then have "join_nl (pre @ suf) = join_nl pre @ (NL # join_nl suf)"
    by (simp add: join_nl_append)
  then show ?thesis by (metis sublist_append_rightI)
qed

lemma sublist_join_take: "sublist (join_nl (take n ls)) (join_nl ls)"
  using sublist_join_prefix[of "take n ls" "drop n ls"] by simp

lemma isMenuList_mono:
  assumes "isMenuList a" "\<And>w. w \<noteq> [] \<Longrightarrow> NL \<notin> set w \<Longrightarrow> str_includes a w \<Longrightarrow> str_includes b w"
  shows "isMenuList b"
proof -
  have n: "NL \<notin> set ''logo''" "NL \<notin> set ''navigate to''" "NL \<notin> set ''install''"
    "NL \<notin> set ''files''" "NL \<notin> set ''user interface''" "NL \<notin> set ''component catalog''"
    "NL \<notin> set ''palette''" "NL \<notin> set ''view_module''" "NL \<notin> set ''#introduction''"
    "NL \<notin> set ''#create-a-new''"
    by (simp_all add: NL_def)
  show ?thesis
    using assms(1) unfolding isMenuList_def
    using assms(2)[OF _ n(1)] assms(2)[OF _ n(2)] assms(2)[OF _ n(3)] assms(2)[OF _ n(4)]
      assms(2)[OF _ n(5)] assms(2)[OF _ n(6)] assms(2)[OF _ n(7)] assms(2)[OF _ n(8)]
      assms(2)[OF _ n(9)] assms(2)[OF _ n(10)]
    by (elim disjE conjE) simp_all
qed

lemma isMenuList_sublist:
  assumes "isMenuList (toLowerCase a)" "sublist a b"
  shows "isMenuList (toLowerCase b)"
proof (rule isMenuList_mono[OF assms(1)])
  fix w assume "str_includes (toLowerCase a) w"
  then show "str_includes (toLowerCase b) w"
    unfolding str_includes_iff_sublist
    using sublist_toLowerCase[OF assms(2)] sublist_order.order.trans by blast
qed

lemma menu_shape_free_no_dash:
  "list_all no_dash_line ls \<Longrightarrow> menu_shape_free ls"
  by (induction ls) (simp_all add: no_dash_line_def)

lemma menu_shape_free_suffix:
  assumes "\<not> isMenuList (toLowerCase (join_nl (pre @ suf)))"
  shows "menu_shape_free suf"
  using assms
proof (induction suf arbitrary: pre)
  case Nil
  show ?case by simp
next
  case (Cons l rest)
  have "sublist (join_nl (take 20 (l # rest))) (join_nl (pre @ l # rest))"
    using sublist_join_take[of 20 "l # rest"] sublist_join_suffix[of "l # rest" pre]
      sublist_order.order.trans by blast
  then have a: "\<not> isMenuList (toLowerCase (join_nl (take 20 (l # rest))))"
    using Cons.prems isMenuList_sublist by blast
  have "menu_shape_free rest" using Cons.IH[of "pre @ [l]"] Cons.prems by simp
  then show ?case using a by simp
qed

lemma menu_inert_shape_free:
  assumes "menu_inert s"
  shows "menu_shape_free (split_nl s)"
proof (cases "list_all no_dash_line (split_nl s)")
  case True
  then show ?thesis by (rule menu_shape_free_no_dash)
next
  case False
  then have "\<not> isMenuList (toLowerCase (join_nl ([] @ split_nl s)))"
    using assms by (simp add: menu_inert_def)
  then show ?thesis by (rule menu_shape_free_suffix)
qed

lemma nav_loop_inert:
  "list_all chrome_free_line ls \<Longrightarrow> menu_shape_free ls \<Longrightarrow> nav_loop 0 c ls = c @ ls"
  by (induction ls arbitrary: c) (auto simp: nav_loop.simps(2) Let_def chrome_free_line_def)

lemma menu_inert_rel:
  assumes "menu_inert s"
    and "\<forall>x\<in>set (split_nl r). \<exists>l\<in>set (split_nl s). sublist x l \<and> trim x = trim l"
  shows "menu_inert r"
proof (cases "list_all no_dash_line (split_nl s)")
  case True
  then have "list_all no_dash_line (split_nl r)"
    using assms(2) unfolding list_all_iff no_dash_line_def by metis
  then show ?thesis by (simp add: menu_inert_def)
next
  case False
  then have n: "\<not> isMenuList (toLowerCase s)" using assms(1) by (simp add: menu_inert_def)
  have "\<not> isMenuList (toLowerCase r)"
  proof
    assume m: "isMenuList (toLowerCase r)"
    have "isMenuList (toLowerCase s)"
    proof (rule isMenuList_mono[OF m])
      fix w assume w: "w \<noteq> []" "NL \<notin> set w" "str_includes (toLowerCase r) w"
      have "toLowerCase r = join_nl (map toLowerCase (split_nl r))"
        using toLowerCase_join[of "split_nl r"] by simp
      then have sl: "sublist w (join_nl (map toLowerCase (split_nl r)))"
        using w(3) by (simp add: str_includes_iff_sublist)
      obtain x where x: "x \<in> set (split_nl r)" "sublist w (toLowerCase x)"
        using sublist_join_line[OF sl w(2,1)] by auto
      obtain l where l: "l \<in> set (split_nl s)" "sublist x l" using assms(2) x(1) by blast
      have "sublist l (join_nl (split_nl s))" by (rule sublist_line_join[OF l(1)])
      then have "sublist x s" using l(2) sublist_order.order.trans by fastforce
      then have "sublist (toLowerCase x) (toLowerCase s)" by (rule sublist_toLowerCase)
      then show "str_includes (toLowerCase s) w"
        unfolding str_includes_iff_sublist using x(2) sublist_order.order.trans by blast
    qed
    then show False using n by simp
  qed
  then show ?thesis by (simp add: menu_inert_def)
qed

text \<open>The passes before the blank-line collapse leave an inert text as it is.\<close>

lemma header_loop_inert:
  "\<forall>l\<in>set ls. \<not> re_test header_logo_pattern (trim l) \<and> \<not> re_test branding_image_pattern (trim l) \<Longrightarrow>
   header_loop res ls = res @ ls"
  by (induction ls arbitrary: res) (simp_all add: Let_def)

lemma toc_loop_inert:
  "\<forall>l\<in>set ls. \<not> isTocItem l \<Longrightarrow> toc_loop False tls seen res ls = res @ ls"
  by (induction ls arbitrary: res) simp_all

lemma set_split_nl: "l \<in> set (split_nl s) \<Longrightarrow> set l \<subseteq> set s"
proof (induction s arbitrary: l)
  case Nil
  then show ?case by simp
next
  case (Cons c s)
  show ?case
  proof (cases "c = NL")
    case True
    then show ?thesis using Cons by auto
  next
    case False
    have "l = c # hd (split_nl s) \<or> l \<in> set (tl (split_nl s))"
      using Cons.prems by (simp add: split_nl_not_NL[OF False])
    moreover have "hd (split_nl s) \<in> set (split_nl s)" by simp
    moreover have "set (tl (split_nl s)) \<subseteq> set (split_nl s)" by (simp add: list.set_sel(2) subsetI)
    ultimately show ?thesis using Cons.IH by fastforce
  qed
qed

lemma set_join_nl: "set (join_nl ls) \<subseteq> (\<Union>l\<in>set ls. set l) \<union> {NL}"
  by (induction ls rule: join_nl.induct) auto

lemma split_nl_append_NL: "split_nl (a @ NL # b) = split_nl a @ split_nl b"
proof (induction a)
  case Nil
  show ?case by simp
next
  case (Cons c a)
  show ?case
  proof (cases "c = NL")
    case True
    then show ?thesis using Cons by simp
  next
    case False
    have "split_nl a \<noteq> []" by simp
    then show ?thesis using Cons by (simp add: split_nl_not_NL[OF False])
  qed
qed

lemma inert_no_lt:
  assumes "inert_text s"
  shows "CHR ''<'' \<notin> set s"
proof -
  have "\<forall>l\<in>set (split_nl s). CHR ''<'' \<notin> set l"
    using assms by (simp add: inert_text_def list_all_iff inert_line_def)
  moreover have "CHR ''<'' \<noteq> NL" by (simp add: NL_def)
  ultimately have "CHR ''<'' \<notin> set (join_nl (split_nl s))"
    using set_join_nl[of "split_nl s"] by auto
  then show ?thesis by simp
qed

lemma is_space_colon [simp]: "\<not> is_space CHR '':''"
  by (simp add: is_space_def NL_def CR_def)

lemma inert_no_colon:
  assumes "inert_text s"
  shows "\<not> sublist [NL, CHR '':''] s"
proof
  assume "sublist [NL, CHR '':''] s"
  then obtain a b where s: "s = a @ NL # CHR '':'' # b" by (auto simp: sublist_def)
  define l where "l = CHR '':'' # hd (split_nl b)"
  have ne: "CHR '':'' \<noteq> NL" by (simp add: NL_def)
  have "split_nl s = split_nl a @ l # tl (split_nl b)"
    unfolding s l_def by (simp add: split_nl_append_NL split_nl_not_NL[OF ne])
  then have "inert_line l" using assms by (simp add: inert_text_def)
  moreover have "prefix '':'' (trim l)"
  proof -
    have "trimStart l = l" by (simp add: trimStart_def l_def)
    moreover have "trimEnd l \<noteq> [] \<and> hd (trimEnd l) = CHR '':''"
    proof -
      have "rev l = rev (hd (split_nl b)) @ [CHR '':'']" by (simp add: l_def)
      then have "dropWhile is_space (rev l) \<noteq> [] \<and> last (dropWhile is_space (rev l)) = CHR '':''"
        by (simp add: dropWhile_append)
      then show ?thesis by (simp add: trimEnd_def hd_rev)
    qed
    ultimately show ?thesis by (cases "trimEnd l") (auto simp: trim_def)
  qed
  ultimately show False by (simp add: inert_line_def)
qed

lemma removeHeaderNav_inert: "inert_text s \<Longrightarrow> removeHeaderNav s = s"
  by (simp add: removeHeaderNav_def header_loop_inert inert_text_def list_all_iff inert_line_def
      chrome_free_line_def)

lemma removeDuplicateTOC_inert: "inert_text s \<Longrightarrow> removeDuplicateTOC s = s"
  by (simp add: removeDuplicateTOC_def toc_loop_inert inert_text_def list_all_iff inert_line_def)

lemma removeNavigationMenus_inert:
  assumes "inert_text s"
  shows "removeNavigationMenus s = trim (collapse_blank_lines s)"
proof -
  have "list_all chrome_free_line (split_nl s)"
    using assms by (simp add: inert_text_def list_all_iff inert_line_def)
  moreover have "menu_shape_free (split_nl s)"
    using assms by (simp add: inert_text_def menu_inert_shape_free)
  ultimately show ?thesis
    by (simp add: removeNavigationMenus_def Let_def nav_loop_inert)
qed

lemma before_cleanWhitespace_inert:
  assumes "inert_text s"
  shows "before_cleanWhitespace s options = trim (collapse_blank_lines s)"
  using assms
  by (simp add: before_cleanWhitespace_def Let_def removeHeaderNav_inert removeDuplicateTOC_inert
      convertDefinitionLists_inert stripRemainingHtml_no_lt inert_no_lt inert_no_colon
      removeNavigationMenus_inert)

text \<open>
  Every line of a trimmed text is a line of the text with white space removed at its
  ends, and such a line of an inert line is inert.
\<close>

lemma trim_Cons_space: "is_space c \<Longrightarrow> trim (c # l) = trim l"
  by (simp add: trim_def trimStart_def)

lemma trimStart_snoc_space:
  "is_space c \<Longrightarrow> trimStart (l @ [c]) = (if trimStart l = [] then [] else trimStart l @ [c])"
  by (auto simp: trimStart_def dropWhile_append)

lemma trimEnd_Nil [simp]: "trimEnd [] = []"
  by (simp add: trimEnd_def)

lemma trim_snoc_space: "is_space c \<Longrightarrow> trim (l @ [c]) = trim l"
  by (simp add: trim_def trimStart_snoc_space trimEnd_snoc)

lemma trim_trimEnd: "trim (trimEnd x) = trim x"
  by (induction x rule: rev_induct) (simp_all add: trimEnd_snoc trim_snoc_space)

lemma trimEnd_idem: "trimEnd (trimEnd x) = trimEnd x"
  by (induction x rule: rev_induct) (simp_all add: trimEnd_snoc)

lemma trim_empty_iff: "trim l = [] \<longleftrightarrow> (\<forall>c\<in>set l. is_space c)"
proof -
  have "set (trimStart l) \<subseteq> set l" unfolding trimStart_def by (auto dest: set_dropWhileD)
  moreover have "trimStart l \<noteq> [] \<Longrightarrow> trimEnd (trimStart l) \<noteq> []"
    using trimEnd_hd[of "trimStart l"] trimStart_hd[of l] by blast
  ultimately show ?thesis
    unfolding trim_def by (auto simp: trimEnd_empty_iff) (auto simp: trimStart_def)
qed

lemma split_nl_snoc:
  "split_nl (s @ [c]) =
     (if c = NL then split_nl s @ [[]] else butlast (split_nl s) @ [last (split_nl s) @ [c]])"
proof (induction s)
  case Nil
  show ?case by (cases "c = NL") (simp_all add: split_nl_not_NL)
next
  case (Cons d s)
  show ?case
  proof (cases "d = NL")
    case True
    then show ?thesis using Cons by (simp add: butlast_append)
  next
    case False
    have ne: "split_nl s \<noteq> []" "split_nl (s @ [c]) \<noteq> []" by simp_all
    show ?thesis
    proof (cases "c = NL")
      case True
      then show ?thesis using Cons ne by (simp add: split_nl_not_NL[OF False])
    next
      case cn: False
      show ?thesis
      proof (cases "tl (split_nl s) = []")
        case True
        then have "split_nl s = [hd (split_nl s)]" using ne(1) by (cases "split_nl s") auto
        then show ?thesis using Cons cn
          by (simp add: split_nl_not_NL[OF False]) (metis butlast.simps(2) last.simps list.sel(1,3) append_Nil)
      next
        case False
        then obtain h k ks where sp: "split_nl s = h # k # ks"
          by (cases "split_nl s"; cases "tl (split_nl s)") auto
        show ?thesis using Cons cn sp by (simp add: split_nl_not_NL[OF \<open>d \<noteq> NL\<close>])
      qed
    qed
  qed
qed

lemma lines_trimStart:
  "x \<in> set (split_nl (trimStart s)) \<Longrightarrow> \<exists>l\<in>set (split_nl s). sublist x l \<and> trim x = trim l"
proof (induction s)
  case Nil
  then show ?case by (simp add: trimStart_def)
next
  case (Cons c cs)
  show ?case
  proof (cases "is_space c")
    case False
    then have "trimStart (c # cs) = c # cs" by (simp add: trimStart_def)
    then show ?thesis using Cons.prems by auto
  next
    case True
    then have "trimStart (c # cs) = trimStart cs" by (simp add: trimStart_def)
    then obtain l where l: "l \<in> set (split_nl cs)" "sublist x l" "trim x = trim l"
      using Cons by auto
    show ?thesis
    proof (cases "c = NL")
      case True
      then show ?thesis using l by auto
    next
      case False
      have "l = hd (split_nl cs) \<or> l \<in> set (tl (split_nl cs))"
        using l(1) by (cases "split_nl cs") auto
      then show ?thesis
      proof
        assume h: "l = hd (split_nl cs)"
        have "sublist x (c # l)" using l(2) by (simp add: sublist_Cons_right)
        moreover have "trim x = trim (c # l)" using l(3) True by (simp add: trim_Cons_space)
        ultimately show ?thesis using h by (auto simp: split_nl_not_NL[OF False])
      next
        assume "l \<in> set (tl (split_nl cs))"
        then show ?thesis using l by (auto simp: split_nl_not_NL[OF False])
      qed
    qed
  qed
qed

lemma sublist_snoc: "sublist x l \<Longrightarrow> sublist x (l @ [c])"
  by (metis sublist_append_rightI sublist_order.order.trans)

lemma lines_trimEnd:
  "x \<in> set (split_nl (trimEnd s)) \<Longrightarrow> \<exists>l\<in>set (split_nl s). sublist x l \<and> trim x = trim l"
proof (induction s rule: rev_induct)
  case Nil
  then show ?case by (simp add: trimEnd_def)
next
  case (snoc c cs)
  show ?case
  proof (cases "is_space c")
    case False
    then have "trimEnd (cs @ [c]) = cs @ [c]" by (simp add: trimEnd_snoc)
    then show ?thesis using snoc.prems by auto
  next
    case True
    then have "trimEnd (cs @ [c]) = trimEnd cs" by (simp add: trimEnd_snoc)
    then obtain l where l: "l \<in> set (split_nl cs)" "sublist x l" "trim x = trim l"
      using snoc by auto
    show ?thesis
    proof (cases "c = NL")
      case True
      then show ?thesis using l by (auto simp: split_nl_snoc)
    next
      case False
      have "l = last (split_nl cs) \<or> l \<in> set (butlast (split_nl cs))"
        using l(1) by (metis append_butlast_last_id split_nl_nonempty
            Un_iff set_append empty_iff empty_set set_ConsD)
      then show ?thesis
      proof
        assume h: "l = last (split_nl cs)"
        have "sublist x (l @ [c])" using l(2) by (rule sublist_snoc)
        moreover have "trim x = trim (l @ [c])" using l(3) True by (simp add: trim_snoc_space)
        ultimately show ?thesis using h by (auto simp: split_nl_snoc False)
      next
        assume "l \<in> set (butlast (split_nl cs))"
        then show ?thesis using l by (auto simp: split_nl_snoc False)
      qed
    qed
  qed
qed

lemma lines_trim:
  assumes "x \<in> set (split_nl (trim s))"
  shows "\<exists>l\<in>set (split_nl s). sublist x l \<and> trim x = trim l"
proof -
  obtain k where k: "k \<in> set (split_nl (trimStart s))" "sublist x k" "trim x = trim k"
    using lines_trimEnd[of x "trimStart s"] assms by (auto simp: trim_def)
  obtain l where l: "l \<in> set (split_nl s)" "sublist k l" "trim k = trim l"
    using lines_trimStart[OF k(1)] by blast
  have "sublist x l" using k(2) l(2) sublist_order.order.trans by blast
  then show ?thesis using l k by auto
qed

lemma inert_line_rel:
  assumes "inert_line l" "sublist x l" "trim x = trim l"
  shows "inert_line x"
proof -
  have "set x \<subseteq> set l" using assms(2) by (auto simp: sublist_def)
  moreover have "\<not> whitespace_only x"
  proof
    assume w: "whitespace_only x"
    then have "trim x = []" by (simp add: whitespace_only_def trim_empty_iff trimEnd_empty_iff)
    then have "trimEnd l = []" using assms(3) by (simp add: trim_empty_iff trimEnd_empty_iff)
    then have "l = []" using assms(1) by (auto simp: inert_line_def whitespace_only_def)
    then show False using assms(2) w by (simp add: whitespace_only_def)
  qed
  ultimately show ?thesis
    using assms(1,3) by (auto simp: inert_line_def chrome_free_line_def isTocItem_def)
qed

text \<open>The output of whitespace cleanup on a trimmed, collapsed, inert text is a fixed point.\<close>

lemma consecutive_blank_append: "consecutive_blank (xs @ [] # [] # ys)"
proof (induction xs)
  case Nil
  show ?case by simp
next
  case (Cons a xs)
  then show ?case by (cases "xs @ [] # [] # ys") auto
qed

lemma sublist_NL3_consecutive_blank:
  assumes "sublist [NL, NL, NL] s"
  shows "consecutive_blank (split_nl s)"
proof -
  obtain a b where s: "s = a @ NL # NL # NL # b" using assms by (auto simp: sublist_def)
  have "split_nl s = butlast (split_nl a) @ [last (split_nl a)] @ [] # [] # split_nl b"
    unfolding s by (simp add: split_nl_append_NL)
  then have "split_nl s = (butlast (split_nl a) @ [last (split_nl a)]) @ [] # [] # split_nl b"
    by simp
  then show ?thesis using consecutive_blank_append by metis
qed

lemma trim_collapse_props:
  "\<not> sublist [NL, NL, NL] (trim (collapse_blank_lines y)) \<and>
   \<not> prefix [NL] (trim (collapse_blank_lines y)) \<and> \<not> suffix [NL] (trim (collapse_blank_lines y))"
proof -
  have "\<not> sublist [NL, NL, NL] (collapse_blank_lines y)" using collapse_props by blast
  then have a: "\<not> sublist [NL, NL, NL] (trim (collapse_blank_lines y))"
    using sublist_trim[of "collapse_blank_lines y"] sublist_order.order.trans by blast
  have b: "\<not> prefix [NL] (trim (collapse_blank_lines y)) \<and> \<not> suffix [NL] (trim (collapse_blank_lines y))"
    using trim_ends[of "collapse_blank_lines y"] by (auto simp: prefix_def suffix_def)
  show ?thesis using a b by simp
qed

lemma hd_split_nl:
  "s \<noteq> [] \<Longrightarrow> hd s \<noteq> NL \<Longrightarrow> hd (split_nl s) \<noteq> [] \<and> hd (hd (split_nl s)) = hd s"
  by (cases s) (simp_all add: split_nl_not_NL)

lemma last_split_nl:
  "s \<noteq> [] \<Longrightarrow> last s \<noteq> NL \<Longrightarrow> last (split_nl s) \<noteq> [] \<and> last (last (split_nl s)) = last s"
  by (cases s rule: rev_cases) (simp_all add: split_nl_snoc)

lemma hd_join_nl: "ls \<noteq> [] \<Longrightarrow> hd ls \<noteq> [] \<Longrightarrow> join_nl ls \<noteq> [] \<and> hd (join_nl ls) = hd (hd ls)"
  by (cases ls rule: join_nl.cases) auto

lemma join_nl_empty: "join_nl ls = [] \<Longrightarrow> ls = [] \<or> ls = [[]]"
  by (cases ls rule: join_nl.cases) auto

lemma last_join_nl: "ls \<noteq> [] \<Longrightarrow> last ls \<noteq> [] \<Longrightarrow> last (join_nl ls) = last (last ls)"
proof (induction ls rule: join_nl.induct)
  case (3 l k ks)
  have "join_nl (k # ks) \<noteq> []" using 3(3) join_nl_empty[of "k # ks"] by auto
  then show ?case using 3 by simp
qed simp_all

lemma trimEnd_id: "s \<noteq> [] \<Longrightarrow> \<not> is_space (last s) \<Longrightarrow> trimEnd s = s"
  by (cases s rule: rev_cases) (simp_all add: trimEnd_snoc)

lemma trim_id: "s \<noteq> [] \<Longrightarrow> \<not> is_space (hd s) \<Longrightarrow> \<not> is_space (last s) \<Longrightarrow> trim s = s"
  by (cases s) (simp_all add: trim_def trimStart_def trimEnd_id)

lemma cleanWhitespace_trimmed:
  assumes "u = [] \<or> (\<not> is_space (hd u) \<and> \<not> is_space (last u))"
    and "\<not> sublist [NL, NL, NL] u"
  shows "trim (cleanWhitespace u) = cleanWhitespace u"
proof (cases "u = []")
  case True
  then show ?thesis by (simp add: cleanWhitespace_def Let_def trim_def trimStart_def)
next
  case False
  then have e: "\<not> is_space (hd u)" "\<not> is_space (last u)" using assms(1) by auto
  then have n: "hd u \<noteq> NL" "last u \<noteq> NL" by auto
  define M where "M = map trimEnd (split_nl u)"
  have v: "cleanWhitespace u = join_nl M"
    by (simp add: cleanWhitespace_def Let_def collapse_id[OF assms(2)] M_def)
  have M: "M \<noteq> []" by (simp add: M_def)
  have h: "hd (split_nl u) \<noteq> []" "hd (hd (split_nl u)) = hd u"
    using hd_split_nl[OF False n(1)] by auto
  have hM: "hd M \<noteq> [] \<and> hd (hd M) = hd u"
    using trimEnd_hd[of "hd (split_nl u)"] h e(1) by (simp add: M_def hd_map)
  have l: "last (split_nl u) \<noteq> []" "last (last (split_nl u)) = last u"
    using last_split_nl[OF False n(2)] by auto
  have lM: "last M \<noteq> [] \<and> last (last M) = last u"
    using trimEnd_id[of "last (split_nl u)"] l e(2) by (simp add: M_def last_map)
  have "join_nl M \<noteq> []" "hd (join_nl M) = hd u" "last (join_nl M) = last u"
    using hd_join_nl[OF M] last_join_nl[OF M] hM lM by auto
  then show ?thesis unfolding v using e by (simp add: trim_id)
qed

lemma cleanWhitespace_lines:
  assumes "\<not> sublist [NL, NL, NL] u" "\<not> prefix [NL] u" "\<not> suffix [NL] u"
    and "\<forall>l\<in>set (split_nl u). \<not> whitespace_only l"
  shows "\<not> consecutive_blank (split_nl (cleanWhitespace u))"
proof
  assume "consecutive_blank (split_nl (cleanWhitespace u))"
  then have "consecutive_blank (map trimEnd (split_nl u))"
    by (simp add: split_nl_cleanWhitespace[OF assms(1)])
  then have "consecutive_blank (split_nl u)"
    using assms(4) consecutive_blank_trimEnd by blast
  then show False
    using consecutive_blank_lines assms(1,2,3) by blast
qed

lemma inert_text_rel:
  assumes "inert_text s"
    and "\<forall>x\<in>set (split_nl r). \<exists>l\<in>set (split_nl s). sublist x l \<and> trim x = trim l"
  shows "inert_text r"
proof -
  have "list_all inert_line (split_nl r)"
    using assms inert_line_rel unfolding inert_text_def list_all_iff by blast
  moreover have "menu_inert r"
    using assms menu_inert_rel unfolding inert_text_def by blast
  ultimately show ?thesis by (simp add: inert_text_def)
qed

lemma inert_trim_collapse:
  assumes "inert_text s"
  shows "inert_text (trim (collapse_blank_lines s))"
proof (rule inert_text_rel[OF assms], rule ballI)
  fix x assume "x \<in> set (split_nl (trim (collapse_blank_lines s)))"
  then obtain l where "l \<in> set (split_nl (collapse_blank_lines s))" "sublist x l \<and> trim x = trim l"
    using lines_trim by blast
  then show "\<exists>l\<in>set (split_nl s). sublist x l \<and> trim x = trim l"
    using collapse_lines_subset by blast
qed

lemma inert_cleanWhitespace:
  assumes "inert_text u" "\<not> sublist [NL, NL, NL] u"
  shows "inert_text (cleanWhitespace u)"
proof (rule inert_text_rel[OF assms(1)], rule ballI)
  fix x assume "x \<in> set (split_nl (cleanWhitespace u))"
  then obtain l where "l \<in> set (split_nl u)" "x = trimEnd l"
    by (auto simp: split_nl_cleanWhitespace[OF assms(2)])
  then show "\<exists>l\<in>set (split_nl u). sublist x l \<and> trim x = trim l"
    using sublist_trimEnd trim_trimEnd by blast
qed

lemma trimEnd_comp: "trimEnd \<circ> trimEnd = trimEnd"
  by (rule ext) (simp add: trimEnd_idem)

lemma cleanWhitespace_idem:
  assumes "\<not> sublist [NL, NL, NL] u" "\<not> sublist [NL, NL, NL] (cleanWhitespace u)"
  shows "cleanWhitespace (cleanWhitespace u) = cleanWhitespace u"
proof -
  have "cleanWhitespace (cleanWhitespace u) = join_nl (map trimEnd (split_nl (cleanWhitespace u)))"
    by (simp add: cleanWhitespace_def[of "cleanWhitespace u"] Let_def collapse_id[OF assms(2)])
  also have "\<dots> = join_nl (map trimEnd (split_nl u))"
    by (simp add: split_nl_cleanWhitespace[OF assms(1)] trimEnd_comp)
  also have "\<dots> = cleanWhitespace u"
    by (simp add: cleanWhitespace_def Let_def collapse_id[OF assms(1)])
  finally show ?thesis .
qed





end
